theory Spec2Isabelle
  imports Main "HOL-Library.Word" "HOL-Library.Sublist"
begin

section \<open>The input builder (\<open>buildCircuitInput\<close> of the proof page)\<close>

text \<open>
  The builder receives the bytes of the uploaded file as a \<open>Uint8Array\<close>. JavaScript numbers
  holding integers and \<open>BigInt\<close> values are modelled as \<open>int\<close>; the elements of a
  \<open>Uint8Array\<close> are 8-bit words.
\<close>

type_synonym byte = "8 word"

text \<open>\<open>const MAX = 8192\<close>.\<close>

definition MAX_LEN :: nat where
  "MAX_LEN = 8192"

text \<open>\<open>while (eml.length < MAX) eml.push(0)\<close>.\<close>

function pad_loop :: "int list \<Rightarrow> int list" where
  "pad_loop eml = (if length eml < MAX_LEN then pad_loop (eml @ [0]) else eml)"
  by pat_completeness auto
termination
  by (relation "measure (\<lambda>eml. MAX_LEN - length eml)") auto

declare pad_loop.simps [simp del]

text \<open>\<open>Array.from(bytes.slice(0, MAX))\<close> followed by the padding loop.\<close>

definition padded :: "byte list \<Rightarrow> int list" where
  "padded bytes = pad_loop (map uint (take MAX_LEN bytes))"

text \<open>\<open>Buffer.from(array)\<close> stores every number modulo 256.\<close>

definition Buffer_from :: "int list \<Rightarrow> int list" where
  "Buffer_from arr = map (\<lambda>n. n mod 256) arr"

text \<open>\<open>Buffer.from(s, 'ascii')\<close>, and \<open>strBytesAscii\<close>, which copies that buffer into an array.\<close>

definition Buffer_from_ascii :: "string \<Rightarrow> int list" where
  "Buffer_from_ascii s = map of_char s"

definition strBytesAscii :: "string \<Rightarrow> int list" where
  "strBytesAscii s = Buffer_from_ascii s"

text \<open>
  Modelled from the spec: \<open>Buffer.prototype.indexOf\<close> is library code that is not part of the
  sources; the specification describes it as a first-occurrence substring search over the
  buffer. The result is the offset of the first occurrence, or \<open>-1\<close> when there is none.
\<close>

fun indexOf_from :: "int list \<Rightarrow> int list \<Rightarrow> int \<Rightarrow> int" where
  "indexOf_from [] val i = (if val = [] then i else - 1)"
| "indexOf_from (b # bs) val i =
     (if prefix val (b # bs) then i else indexOf_from bs val (i + 1))"

definition indexOf :: "int list \<Rightarrow> int list \<Rightarrow> int" where
  "indexOf buf val = indexOf_from buf val 0"

text \<open>\<open>arr.slice(a, b)\<close> for \<open>0 \<le> a \<le> b\<close>.\<close>

definition slice :: "'a list \<Rightarrow> nat \<Rightarrow> nat \<Rightarrow> 'a list" where
  "slice xs a b = take (b - a) (drop a xs)"

text \<open>
  \<open>pack31LE\<close>: the loop over \<open>i = 0 .. 30\<close> with the accumulator and the multiplier;
  \<open>bytes[i] || 0\<close> reads 0 beyond the end of the array.
\<close>

function pack31LE_loop :: "int list \<Rightarrow> nat \<Rightarrow> int \<Rightarrow> int \<Rightarrow> int" where
  "pack31LE_loop bytes i acc mul =
     (if i < 31
      then pack31LE_loop bytes (i + 1)
             (acc + (if i < length bytes then bytes ! i else 0) * mul) (mul * 256)
      else acc)"
  by pat_completeness auto
termination
  by (relation "measure (\<lambda>(bytes, i, acc, mul). 31 - i)") auto

declare pack31LE_loop.simps [simp del]

definition pack31LE :: "int list \<Rightarrow> int" where
  "pack31LE bytes = pack31LE_loop bytes 0 0 1"

text \<open>
  The Poseidon permutation comes from a library (circomlibjs for the builder, circomlib for
  the circuit); it is a parameter \<open>H\<close> of the model, a two-input function on field elements,
  and so is the prime \<open>p\<close> of the field. \<open>F.e\<close> reduces an integer into the field, and
  \<open>BigInt(F.toString(out))\<close> reads the canonical representative back.
\<close>

definition poseidon :: "int \<Rightarrow> (int \<Rightarrow> int \<Rightarrow> int) \<Rightarrow> int \<Rightarrow> int \<Rightarrow> int" where
  "poseidon p H h chunk = H (h mod p) (chunk mod p) mod p"

text \<open>\<open>for (let off = 0; off < MAX; off += 31) { ... h = ... }\<close>.\<close>

function hash_loop :: "int \<Rightarrow> (int \<Rightarrow> int \<Rightarrow> int) \<Rightarrow> int list \<Rightarrow> nat \<Rightarrow> int \<Rightarrow> int" where
  "hash_loop p H eml off h =
     (if off < MAX_LEN
      then hash_loop p H eml (off + 31) (poseidon p H h (pack31LE (slice eml off (off + 31))))
      else h)"
  by pat_completeness auto
termination
  by (relation "measure (\<lambda>(p, H, eml, off, h). MAX_LEN - off)") auto

declare hash_loop.simps [simp del]

text \<open>\<open>oneHot\<close>: an array of zeros with a 1 at \<open>pos\<close> when \<open>pos\<close> is an index of the array.\<close>

definition oneHot :: "nat \<Rightarrow> int \<Rightarrow> int list" where
  "oneHot len pos =
     (let arr = replicate len 0
      in if pos \<ge> 0 \<and> pos < int len then arr[nat pos := 1] else arr)"

text \<open>\<open>n.toString()\<close> on an integer: its decimal digits, with a minus sign when negative.\<close>

function digits :: "nat \<Rightarrow> string" where
  "digits n =
     (if n < 10 then [''0123456789'' ! n]
      else digits (n div 10) @ [''0123456789'' ! (n mod 10)])"
  by pat_completeness auto
termination
  by (relation "measure (\<lambda>n. n)") auto

declare digits.simps [simp del]

definition toString :: "int \<Rightarrow> string" where
  "toString n = (if n < 0 then CHR ''-'' # digits (nat (- n)) else digits (nat n))"

text \<open>The object handed to the witness calculator.\<close>

record circuit_input =
  eml_commitment :: string
  eml :: "string list"
  from_bytes :: "string list"
  to_bytes :: "string list"
  atg_bytes :: "string list"
  sel_from :: "string list"
  sel_to :: "string list"
  sel_atg :: "string list"

datatype build_error = Error string

definition fromStr :: string where "fromStr = ''From:''"
definition toStr :: string where "toStr = ''To:''"
definition atgStr :: string where "atgStr = ''@gmail.com''"

definition buildCircuitInput ::
  "int \<Rightarrow> (int \<Rightarrow> int \<Rightarrow> int) \<Rightarrow> byte list \<Rightarrow> build_error + circuit_input" where
  "buildCircuitInput p H bytes =
     (let eml = padded bytes;
          buf = Buffer_from eml;
          idx_from = indexOf buf (Buffer_from_ascii fromStr);
          idx_to = indexOf buf (Buffer_from_ascii toStr);
          idx_atg = indexOf buf (Buffer_from_ascii atgStr)
      in if idx_from < 0 \<or> idx_to < 0 \<or> idx_atg < 0
         then Inl (Error ''Required literals not found in .eml (need From:, To:, and @gmail.com)'')
         else
           let h = hash_loop p H eml 0 0
           in Inr \<lparr> eml_commitment = toString h,
                    eml = map toString eml,
                    from_bytes = map toString (strBytesAscii fromStr),
                    to_bytes = map toString (strBytesAscii toStr),
                    atg_bytes = map toString (strBytesAscii atgStr),
                    sel_from = map toString (oneHot MAX_LEN idx_from),
                    sel_to = map toString (oneHot MAX_LEN idx_to),
                    sel_atg = map toString (oneHot MAX_LEN idx_atg) \<rparr>)"


section \<open>The circuit (\<open>eml_receiver.circom\<close>)\<close>

text \<open>
  A circom signal holds an element of the prime field chosen when the circuit is compiled.
  The prime \<open>p\<close> is a parameter of the model; a signal is an integer in \<open>[0, p)\<close>, and a
  constraint \<open>a === b\<close> holds when \<open>a\<close> and \<open>b\<close> are congruent modulo \<open>p\<close>. A template is a
  predicate on the values of its signals: it holds when every constraint of the template does.
\<close>

definition field_elem :: "int \<Rightarrow> int \<Rightarrow> bool" where
  "field_elem p x \<longleftrightarrow> 0 \<le> x \<and> x < p"

definition field_elems :: "int \<Rightarrow> int list \<Rightarrow> bool" where
  "field_elems p xs \<longleftrightarrow> list_all (field_elem p) xs"

definition is_prime :: "int \<Rightarrow> bool" where
  "is_prime p \<longleftrightarrow> 1 < p \<and> list_all (\<lambda>d. \<not> d dvd p) [2..p - 1]"

text \<open>
  Modelled from the spec: \<open>Num2Bits\<close> belongs to circomlib (\<open>bitify.circom\<close>), which is not
  part of the sources. The specification says that each byte is constrained to its 8-bit
  decomposition: the template has \<open>n\<close> output signals, each constrained to be a bit by
  \<open>out[i] * (out[i] - 1) === 0\<close>, whose weighted sum \<open>out[0] + 2 * out[1] + ...\<close> is
  constrained to equal the input.
\<close>

fun lc1 :: "int list \<Rightarrow> int" where
  "lc1 [] = 0"
| "lc1 (b # bs) = b + 2 * lc1 bs"

definition Num2Bits :: "int \<Rightarrow> nat \<Rightarrow> int \<Rightarrow> int list \<Rightarrow> bool" where
  "Num2Bits p n inp out \<longleftrightarrow>
     length out = n \<and> list_all (\<lambda>b. (b * (b - 1)) mod p = 0) out \<and> lc1 out mod p = inp mod p"

text \<open>\<open>ValidateByteRange\<close>: the input goes through \<open>Num2Bits(8)\<close>; the output is the constant 1.\<close>

definition ValidateByteRange :: "int \<Rightarrow> int \<Rightarrow> int list \<Rightarrow> int \<Rightarrow> bool" where
  "ValidateByteRange p byte_value bits is_valid \<longleftrightarrow>
     Num2Bits p 8 byte_value bits \<and> is_valid = 1"

text \<open>
  \<open>EncodeBytesToField\<close>: 31 validators, then the loop over \<open>j\<close> that builds the linear
  combination; the variables of the loop hold field elements.
\<close>

function encode_loop :: "int \<Rightarrow> int list \<Rightarrow> nat \<Rightarrow> int \<Rightarrow> int \<Rightarrow> int" where
  "encode_loop p byte_array j accumulator multiplier =
     (if j < 31
      then encode_loop p byte_array (j + 1)
             ((accumulator + byte_array ! j * multiplier) mod p) ((multiplier * 256) mod p)
      else accumulator)"
  by pat_completeness auto
termination
  by (relation "measure (\<lambda>(p, byte_array, j, accumulator, multiplier). 31 - j)") auto

declare encode_loop.simps [simp del]

definition EncodeBytesToField :: "int \<Rightarrow> int list \<Rightarrow> int list list \<Rightarrow> int \<Rightarrow> bool" where
  "EncodeBytesToField p byte_array bits field_element \<longleftrightarrow>
     length byte_array = 31 \<and> length bits = 31 \<and>
     list_all (\<lambda>i. ValidateByteRange p (byte_array ! i) (bits ! i) 1) [0..<31] \<and>
     field_element = encode_loop p byte_array 0 0 1"

text \<open>
  \<open>SequentialPoseidonHash\<close>: the inputs of encoder \<open>c\<close> are the bytes \<open>31 c .. 31 c + 30\<close> of
  the data, or 0 past its end; component \<open>i2\<close> hashes the previous output (0 for the first
  one) with the element of encoder \<open>i2\<close>. The inputs of a \<open>Poseidon(2)\<close> component are
  signals, so the component computes the same \<open>poseidon\<close> as the builder's library does.
\<close>

definition byte_array_of :: "nat \<Rightarrow> int list \<Rightarrow> nat \<Rightarrow> int list" where
  "byte_array_of maxLength email_data c =
     map (\<lambda>k. let data_index = c * 31 + k
              in if data_index < maxLength then email_data ! data_index else 0) [0..<31]"

definition field_encoders :: "int \<Rightarrow> nat \<Rightarrow> int list \<Rightarrow> nat \<Rightarrow> int" where
  "field_encoders p maxLength email_data c =
     encode_loop p (byte_array_of maxLength email_data c) 0 0 1"

fun hash_components :: "int \<Rightarrow> (int \<Rightarrow> int \<Rightarrow> int) \<Rightarrow> (nat \<Rightarrow> int) \<Rightarrow> nat \<Rightarrow> int" where
  "hash_components p H fe 0 = poseidon p H 0 (fe 0)"
| "hash_components p H fe (Suc i) = poseidon p H (hash_components p H fe i) (fe (Suc i))"

definition SequentialPoseidonHash ::
  "int \<Rightarrow> (int \<Rightarrow> int \<Rightarrow> int) \<Rightarrow> nat \<Rightarrow> nat \<Rightarrow> int list \<Rightarrow> int list list list \<Rightarrow> int \<Rightarrow> bool" where
  "SequentialPoseidonHash p H maxLength chunkCount email_data bits hash_result \<longleftrightarrow>
     length email_data = maxLength \<and> length bits = chunkCount \<and> 0 < chunkCount \<and>
     list_all (\<lambda>c. EncodeBytesToField p (byte_array_of maxLength email_data c) (bits ! c)
                     (field_encoders p maxLength email_data c)) [0..<chunkCount] \<and>
     hash_result = hash_components p H (field_encoders p maxLength email_data) (chunkCount - 1)"

text \<open>
  \<open>PatternMatcher\<close>: the constraints on the selector (boolean and summing to 1 on the valid
  positions, zero after them), then one constraint for every pattern position and every
  valid start.
\<close>

definition VALID_POSITIONS :: "nat \<Rightarrow> nat \<Rightarrow> nat" where
  "VALID_POSITIONS MAX_EMAIL_LEN PATTERN_LEN = MAX_EMAIL_LEN - PATTERN_LEN + 1"

definition selector_constraints :: "int \<Rightarrow> nat \<Rightarrow> nat \<Rightarrow> int list \<Rightarrow> bool" where
  "selector_constraints p MAX_EMAIL_LEN PATTERN_LEN selector \<longleftrightarrow>
     list_all (\<lambda>t. (selector ! t * (selector ! t - 1)) mod p = 0)
       [0..<VALID_POSITIONS MAX_EMAIL_LEN PATTERN_LEN] \<and>
     sum_list (map (\<lambda>t. selector ! t) [0..<VALID_POSITIONS MAX_EMAIL_LEN PATTERN_LEN]) mod p
       = 1 mod p \<and>
     list_all (\<lambda>u. selector ! u mod p = 0)
       [VALID_POSITIONS MAX_EMAIL_LEN PATTERN_LEN..<MAX_EMAIL_LEN]"

definition match_constraints :: "int \<Rightarrow> nat \<Rightarrow> nat \<Rightarrow> int list \<Rightarrow> int list \<Rightarrow> int list \<Rightarrow> bool" where
  "match_constraints p MAX_EMAIL_LEN PATTERN_LEN email_data pattern selector \<longleftrightarrow>
     list_all (\<lambda>i.
       list_all (\<lambda>t2. (selector ! t2 * (email_data ! (t2 + i) - pattern ! i)) mod p = 0)
         [0..<VALID_POSITIONS MAX_EMAIL_LEN PATTERN_LEN])
       [0..<PATTERN_LEN]"

definition PatternMatcher :: "int \<Rightarrow> nat \<Rightarrow> nat \<Rightarrow> int list \<Rightarrow> int list \<Rightarrow> int list \<Rightarrow> bool" where
  "PatternMatcher p MAX_EMAIL_LEN PATTERN_LEN email_data pattern selector \<longleftrightarrow>
     length email_data = MAX_EMAIL_LEN \<and> length pattern = PATTERN_LEN \<and>
     length selector = MAX_EMAIL_LEN \<and>
     selector_constraints p MAX_EMAIL_LEN PATTERN_LEN selector \<and>
     match_constraints p MAX_EMAIL_LEN PATTERN_LEN email_data pattern selector"


text \<open>
  \<open>EmailHeaderVerifier\<close>, the main component: the hash of the data is constrained to equal
  the public input, and one \<open>PatternMatcher\<close> runs for each of the three patterns. The chunk
  count 265 is written in the template.
\<close>

definition EmailHeaderVerifier ::
  "int \<Rightarrow> (int \<Rightarrow> int \<Rightarrow> int) \<Rightarrow> nat \<Rightarrow> int \<Rightarrow> int list \<Rightarrow> int list \<Rightarrow> int list \<Rightarrow> int list
   \<Rightarrow> int list \<Rightarrow> int list \<Rightarrow> int list \<Rightarrow> int list list list \<Rightarrow> bool" where
  "EmailHeaderVerifier p H MAX_EMAIL_LEN email_hash email_data from_header_bytes to_header_bytes
     gmail_domain_bytes from_selector to_selector domain_selector bits \<longleftrightarrow>
     (let hash_result = hash_components p H (field_encoders p MAX_EMAIL_LEN email_data) (265 - 1)
      in SequentialPoseidonHash p H MAX_EMAIL_LEN 265 email_data bits hash_result \<and>
         hash_result mod p = email_hash mod p) \<and>
     PatternMatcher p MAX_EMAIL_LEN 5 email_data from_header_bytes from_selector \<and>
     PatternMatcher p MAX_EMAIL_LEN 3 email_data to_header_bytes to_selector \<and>
     PatternMatcher p MAX_EMAIL_LEN 10 email_data gmail_domain_bytes domain_selector"

text \<open>
  The bits a prover assigns to the outputs of \<open>Num2Bits\<close>: \<open>out[i] <-- (in >> i) & 1\<close>.
\<close>

fun bits_of :: "nat \<Rightarrow> int \<Rightarrow> int list" where
  "bits_of 0 v = []"
| "bits_of (Suc n) v = (v mod 2) # bits_of n (v div 2)"



section \<open>The identity registry (\<open>NULLIDRegistry.updateField\<close>)\<close>

text \<open>
  The contract is compiled with Solidity 0.8, whose arithmetic is checked: an overflow or
  an underflow aborts the call with \<open>Panic(0x11)\<close>. A failed \<open>require\<close> reverts with its
  message. A call that aborts leaves the storage as it was, so the model returns the error
  in place of a new state. Mappings are total functions whose default is the zero value.
  Two strings have the same \<open>keccak256\<close> exactly when they are equal (the hash is taken to
  be free of collisions).
\<close>

record IdentityData =
  mainENSId :: string
  connectedEmail :: string
  organization :: string
  isHuman :: bool
  age :: "8 word"
  ofacStatus :: "8 word"
  publicInput :: string
  proof_data :: string
  timestamp :: "256 word"
  exists_flag :: bool

datatype event = DataFieldUpdated string string string

record registry =
  identities :: "string \<Rightarrow> IdentityData"
  ensToIdentifier :: "string \<Rightarrow> string"
  allIdentifiers :: "string list"
  events :: "event list"

datatype sol_error = Revert string | Panic nat

text \<open>\<open>uint8(b) - 48\<close> with checked arithmetic.\<close>

definition checked_sub :: "8 word \<Rightarrow> 8 word \<Rightarrow> sol_error + 8 word" where
  "checked_sub a b = (if a < b then Inl (Panic 17) else Inr (a - b))"

text \<open>The branch for \<open>age\<close> (and, with its own messages, for \<open>ofacStatus\<close>).\<close>

definition decode_flag :: "string \<Rightarrow> string \<Rightarrow> string \<Rightarrow> sol_error + 8 word" where
  "decode_flag length_message range_message newValue =
     (if length newValue \<noteq> 1 then Inl (Revert length_message)
      else case checked_sub (of_char (newValue ! 0)) 48 of
             Inl e \<Rightarrow> Inl e
           | Inr flagValue \<Rightarrow>
               if flagValue = 0 \<or> flagValue = 1 then Inr flagValue
               else Inl (Revert range_message))"

definition updateField ::
  "registry \<Rightarrow> 256 word \<Rightarrow> string \<Rightarrow> string \<Rightarrow> string \<Rightarrow> sol_error + registry" where
  "updateField st block_timestamp identifier fieldName newValue =
     (if \<not> exists_flag (identities st identifier) then Inl (Revert ''Identity does not exist'')
      else
        let identity = identities st identifier;
            finish = (\<lambda>st' identity'.
              Inr (st'\<lparr> identities := (identities st')
                          (identifier := identity'\<lparr> timestamp := block_timestamp \<rparr>),
                        events := events st' @ [DataFieldUpdated identifier fieldName newValue] \<rparr>))
        in if fieldName = ''mainENSId'' then
             finish (st\<lparr> ensToIdentifier :=
                          (ensToIdentifier st)(mainENSId identity := [], newValue := identifier) \<rparr>)
                    (identity\<lparr> mainENSId := newValue \<rparr>)
           else if fieldName = ''connectedEmail'' then
             finish st (identity\<lparr> connectedEmail := newValue \<rparr>)
           else if fieldName = ''organization'' then
             finish st (identity\<lparr> organization := newValue \<rparr>)
           else if fieldName = ''isHuman'' then
             finish st (identity\<lparr> isHuman := (newValue = ''true'') \<rparr>)
           else if fieldName = ''age'' then
             (case decode_flag ''Age value must be single character'' ''Age must be 0 or 1'' newValue of
                Inl e \<Rightarrow> Inl e
              | Inr ageValue \<Rightarrow> finish st (identity\<lparr> age := ageValue \<rparr>))
           else if fieldName = ''ofacStatus'' then
             (case decode_flag ''OFAC value must be single character'' ''OFAC status must be 0 or 1''
                     newValue of
                Inl e \<Rightarrow> Inl e
              | Inr ofacValue \<Rightarrow> finish st (identity\<lparr> ofacStatus := ofacValue \<rparr>))
           else if fieldName = ''publicInput'' then
             finish st (identity\<lparr> publicInput := newValue \<rparr>)
           else if fieldName = ''proof'' then
             finish st (identity\<lparr> proof_data := newValue \<rparr>)
           else Inl (Revert ''Invalid field name''))"

text \<open>A registry holding one identity, whose flags are both 1.\<close>

definition alice :: IdentityData where
  "alice = \<lparr> mainENSId = ''alice.eth'', connectedEmail = ''alice@gmail.com'',
             organization = ''org'', isHuman = True, age = 1, ofacStatus = 1,
             publicInput = [], proof_data = [], timestamp = 0, exists_flag = True \<rparr>"

definition registry0 :: registry where
  "registry0 = \<lparr> identities = (\<lambda>k. if k = ''id1'' then alice
                   else \<lparr> mainENSId = [], connectedEmail = [], organization = [],
                          isHuman = False, age = 0, ofacStatus = 0, publicInput = [],
                          proof_data = [], timestamp = 0, exists_flag = False \<rparr>),
                 ensToIdentifier = (\<lambda>k. if k = ''alice.eth'' then ''id1'' else []),
                 allIdentifiers = [''id1''], events = [] \<rparr>"


section \<open>Notions used to state the properties of the builder\<close>

text \<open>The pattern \<open>pat\<close> occurs in \<open>buf\<close> at offset \<open>k\<close>: \<open>buf[k .. k + len) = pat\<close>.\<close>

definition occurs_at :: "int list \<Rightarrow> int list \<Rightarrow> nat \<Rightarrow> bool" where
  "occurs_at buf pat k \<longleftrightarrow> k + length pat \<le> length buf \<and> slice buf k (k + length pat) = pat"

text \<open>The bytes of the three literals, as \<open>Buffer.from(s, 'ascii')\<close> yields them.\<close>

definition from_pattern :: "int list" where
  "from_pattern = Buffer_from_ascii fromStr"

definition to_pattern :: "int list" where
  "to_pattern = Buffer_from_ascii toStr"

definition atg_pattern :: "int list" where
  "atg_pattern = Buffer_from_ascii atgStr"

text \<open>The message of the only error that the builder raises.\<close>

definition missing_literals :: build_error where
  "missing_literals =
     Error ''Required literals not found in .eml (need From:, To:, and @gmail.com)''"

text \<open>A \<open>Uint8Array\<close> holding an ASCII text, and a toy two-input hash, for concrete runs.\<close>

definition bytes_of :: "string \<Rightarrow> byte list" where
  "bytes_of s = map of_char s"

definition H0 :: "int \<Rightarrow> int \<Rightarrow> int" where
  "H0 a b = a + 2 * b"

text \<open>
  Inputs for concrete runs: a mail with the three literals, one without \<open>To:\<close>, one
  without \<open>From:\<close>, a buffer of exactly 8192 bytes whose last ten bytes are
  \<open>@gmail.com\<close>, and an input of 8195 bytes in which \<open>@gmail.com\<close> starts at offset 8185.
\<close>

definition mail1 :: "byte list" where
  "mail1 = bytes_of ''From: a@x.com To: b@x.com some@gmail.com body''"

definition mail_no_to :: "byte list" where
  "mail_no_to = bytes_of ''From: a@gmail.com''"

definition mail_no_from :: "byte list" where
  "mail_no_from = bytes_of ''To: a@gmail.com''"



section \<open>Facts about the builder\<close>

subsection \<open>Padding and search\<close>

lemma pad_loop_eq: "pad_loop xs = xs @ replicate (MAX_LEN - length xs) 0"
proof (induction xs rule: pad_loop.induct)
  case (1 eml)
  show ?case
  proof (cases "length eml < MAX_LEN")
    case True
    then have "MAX_LEN - length eml = Suc (MAX_LEN - length (eml @ [0]))" by simp
    with True 1 show ?thesis
      by (subst pad_loop.simps) (simp add: replicate_app_Cons_same)
  next
    case False
    then show ?thesis by (subst pad_loop.simps) simp
  qed
qed

lemma padded_eq:
  "padded bytes = map uint (take MAX_LEN bytes) @ replicate (MAX_LEN - length bytes) 0"
  by (simp add: padded_def pad_loop_eq)

lemma length_padded: "length (padded bytes) = MAX_LEN"
  by (simp add: padded_eq)

lemma padded_range: "x \<in> set (padded bytes) \<Longrightarrow> 0 \<le> x \<and> x \<le> 255"
proof -
  assume "x \<in> set (padded bytes)"
  then consider b where "x = uint (b::byte)" | "x = 0"
    by (auto simp: padded_eq)
  then show ?thesis
  proof cases
    case 1
    have "uint b < 2 ^ 8" using uint_lt2p[of b] by simp
    then show ?thesis using 1 by simp
  next
    case 2 then show ?thesis by simp
  qed
qed

lemma Buffer_from_padded: "Buffer_from (padded bytes) = padded bytes"
  unfolding Buffer_from_def
  by (rule map_idI) (use padded_range in force)

lemma prefix_take_iff: "prefix val ys \<longleftrightarrow> length val \<le> length ys \<and> take (length val) ys = val"
  by (metis prefix_length_le take_is_prefix append_eq_conv_conj prefix_def)

lemma indexOf_from_spec:
  "(if sublist val xs
    then \<exists>k. indexOf_from xs val i = i + int k \<and> prefix val (drop k xs)
             \<and> (\<forall>j<k. \<not> prefix val (drop j xs))
    else indexOf_from xs val i = - 1)"
proof (induction xs arbitrary: i)
  case Nil
  show ?case by (cases "val = []") auto
next
  case (Cons b bs)
  show ?case
  proof (cases "prefix val (b # bs)")
    case True
    then have "sublist val (b # bs)" by (simp add: sublist_Cons_right)
    with True show ?thesis by (auto intro!: exI[of _ 0])
  next
    case np: False
    show ?thesis
    proof (cases "sublist val bs")
      case True
      with Cons[of "i + 1"] obtain k where k: "indexOf_from bs val (i + 1) = i + 1 + int k"
        "prefix val (drop k bs)" "\<forall>j<k. \<not> prefix val (drop j bs)" by auto
      have "\<forall>j<Suc k. \<not> prefix val (drop j (b # bs))"
      proof (intro allI impI)
        fix j assume "j < Suc k"
        then show "\<not> prefix val (drop j (b # bs))"
          using np k(3) by (cases j) auto
      qed
      with k np True show ?thesis
        by (auto simp: sublist_Cons_right intro!: exI[of _ "Suc k"])
    next
      case False
      with np Cons[of "i + 1"] show ?thesis by (simp add: sublist_Cons_right)
    qed
  qed
qed

lemma patterns:
  "from_pattern = [70, 114, 111, 109, 58]"
  "to_pattern = [84, 111, 58]"
  "atg_pattern = [64, 103, 109, 97, 105, 108, 46, 99, 111, 109]"
  by (simp_all add: from_pattern_def to_pattern_def atg_pattern_def Buffer_from_ascii_def
        fromStr_def toStr_def atgStr_def)

lemma occurs_at_prefix:
  "pat \<noteq> [] \<Longrightarrow> occurs_at buf pat k \<longleftrightarrow> prefix pat (drop k buf)"
  by (cases pat) (auto simp: occurs_at_def slice_def prefix_take_iff)

lemma occurs_at_sublist: "occurs_at buf pat k \<Longrightarrow> sublist pat buf"
proof -
  assume a: "occurs_at buf pat k"
  then have "take (length pat) (drop k buf) = pat" by (simp add: occurs_at_def slice_def)
  then have "buf = take k buf @ pat @ drop (length pat) (drop k buf)"
    by (metis append_take_drop_id)
  then show ?thesis unfolding sublist_def by blast
qed

lemma indexOf_absent: "\<not> sublist val buf \<Longrightarrow> indexOf buf val = - 1"
  using indexOf_from_spec[of val buf 0] by (simp add: indexOf_def)

lemma indexOf_found:
  assumes "sublist val buf" "val \<noteq> []"
  shows "\<exists>k. indexOf buf val = int k \<and> occurs_at buf val k \<and> (\<forall>j<k. \<not> occurs_at buf val j)"
  using indexOf_from_spec[of val buf 0] assms by (simp add: indexOf_def occurs_at_prefix)

lemma indexOf_nonneg_iff: "val \<noteq> [] \<Longrightarrow> \<not> indexOf buf val < 0 \<longleftrightarrow> sublist val buf"
  using indexOf_absent[of val buf] indexOf_found[of val buf] by (cases "sublist val buf") auto


lemma sublist_append_zeros:
  assumes "val \<noteq> []" "last val \<noteq> (0::int)"
  shows "sublist val (xs @ replicate n 0) \<longleftrightarrow> sublist val xs"
proof
  assume "sublist val xs" then show "sublist val (xs @ replicate n 0)"
    by (simp add: sublist_append)
next
  assume "sublist val (xs @ replicate n 0)"
  then obtain ps ss where e: "xs @ replicate n 0 = ps @ val @ ss" by (auto simp: sublist_def)
  let ?m = "length ps + length val"
  have "?m \<le> length xs"
  proof (rule ccontr)
    assume "\<not> ?m \<le> length xs"
    then have l: "length xs \<le> ?m - 1" by simp
    have pos: "0 < length val" using assms(1) by simp
    have "(xs @ replicate n 0) ! (?m - 1) = (ps @ val @ ss) ! (?m - 1)" using e by simp
    also have "\<dots> = (ps @ val @ ss) ! (length ps + (length val - 1))"
    proof -
      have "?m - 1 = length ps + (length val - 1)" using pos by arith
      then show ?thesis by (simp only:)
    qed
    also have "\<dots> = (val @ ss) ! (length val - 1)" by (rule nth_append_length_plus)
    also have "\<dots> = val ! (length val - 1)" using pos by (simp add: nth_append)
    also have "\<dots> = last val" using assms(1) by (simp add: last_conv_nth)
    finally have "(xs @ replicate n 0) ! (?m - 1) = last val" .
    moreover have "length (xs @ replicate n 0) = ?m + length ss"
      using arg_cong[OF e, of length] by simp
    then have "?m - 1 < length (xs @ replicate n 0)" using pos by arith
    then have "(xs @ replicate n 0) ! (?m - 1) = 0" using l by (simp add: nth_append)
    ultimately show False using assms(2) by simp
  qed
  then have "take ?m (xs @ replicate n 0) = take ?m xs" by simp
  moreover have "take ?m (ps @ val @ ss) = ps @ val" by simp
  ultimately have "take ?m xs = ps @ val" using e by simp
  then have "xs = ps @ val @ drop ?m xs" by (metis append_take_drop_id append.assoc)
  then show "sublist val xs" unfolding sublist_def by blast
qed

lemma sublist_padded:
  assumes "val \<noteq> []" "last val \<noteq> 0"
  shows "sublist val (padded bytes) \<longleftrightarrow> sublist val (map uint (take MAX_LEN bytes))"
  unfolding padded_eq by (rule sublist_append_zeros[OF assms])

lemma indexOf_append:
  assumes "sublist val xs" "val \<noteq> []"
  shows "indexOf (xs @ ys) val = indexOf xs val"
proof -
  from indexOf_found[OF assms] obtain k where
    k: "indexOf xs val = int k" "occurs_at xs val k" "\<forall>j<k. \<not> occurs_at xs val j" by blast
  have o: "occurs_at (xs @ ys) val k" using k(2) by (auto simp: occurs_at_def slice_def)
  from indexOf_found[OF occurs_at_sublist[OF o] assms(2)] obtain k' where
    k': "indexOf (xs @ ys) val = int k'" "occurs_at (xs @ ys) val k'"
        "\<forall>j<k'. \<not> occurs_at (xs @ ys) val j" by blast
  have "k' \<le> k" using k'(3) o by (meson not_less)
  moreover have "\<not> k' < k"
  proof
    assume lt: "k' < k"
    from k(2) have "k + length val \<le> length xs" by (simp add: occurs_at_def)
    with lt have "k' + length val \<le> length xs" by simp
    with k'(2) have "occurs_at xs val k'" by (auto simp: occurs_at_def slice_def)
    with k(3) lt show False by blast
  qed
  ultimately show ?thesis using k(1) k'(1) by simp
qed

lemma oneHot_length: "length (oneHot n pos) = n"
  by (simp add: oneHot_def Let_def)

lemma oneHot_nth: "i < n \<Longrightarrow> oneHot n pos ! i = (if int i = pos then 1 else 0)"
  by (auto simp: oneHot_def Let_def nth_list_update)

lemma oneHot_nat: "k < n \<Longrightarrow> oneHot n (int k) = (replicate n 0)[k := 1]"
  by (simp add: oneHot_def Let_def)

lemma toString_bits: "toString 0 = ''0''" "toString 1 = ''1''"
  by (simp_all add: toString_def digits.simps)

lemma patterns_nonempty:
  "from_pattern \<noteq> []" "to_pattern \<noteq> []" "atg_pattern \<noteq> []"
  "last from_pattern \<noteq> 0" "last to_pattern \<noteq> 0" "last atg_pattern \<noteq> 0"
  "length from_pattern = 5" "length to_pattern = 3" "length atg_pattern = 10"
  by (simp_all add: patterns)

lemma build_cases:
  "buildCircuitInput p H bytes =
     (if sublist from_pattern (padded bytes) \<and> sublist to_pattern (padded bytes)
         \<and> sublist atg_pattern (padded bytes)
      then Inr \<lparr> eml_commitment = toString (hash_loop p H (padded bytes) 0 0),
                 eml = map toString (padded bytes),
                 from_bytes = map toString from_pattern,
                 to_bytes = map toString to_pattern,
                 atg_bytes = map toString atg_pattern,
                 sel_from = map toString (oneHot MAX_LEN (indexOf (padded bytes) from_pattern)),
                 sel_to = map toString (oneHot MAX_LEN (indexOf (padded bytes) to_pattern)),
                 sel_atg = map toString (oneHot MAX_LEN (indexOf (padded bytes) atg_pattern)) \<rparr>
      else Inl missing_literals)"
proof -
  have f: "indexOf (padded bytes) from_pattern < 0 \<longleftrightarrow> \<not> sublist from_pattern (padded bytes)"
    using indexOf_nonneg_iff[OF patterns_nonempty(1), of "padded bytes"] by blast
  have t: "indexOf (padded bytes) to_pattern < 0 \<longleftrightarrow> \<not> sublist to_pattern (padded bytes)"
    using indexOf_nonneg_iff[OF patterns_nonempty(2), of "padded bytes"] by blast
  have g: "indexOf (padded bytes) atg_pattern < 0 \<longleftrightarrow> \<not> sublist atg_pattern (padded bytes)"
    using indexOf_nonneg_iff[OF patterns_nonempty(3), of "padded bytes"] by blast
  show ?thesis
    unfolding buildCircuitInput_def Let_def Buffer_from_padded strBytesAscii_def
      from_pattern_def[symmetric] to_pattern_def[symmetric] atg_pattern_def[symmetric]
      missing_literals_def[symmetric] f t g
    by simp
qed

lemma selector_of_found:
  assumes "sublist pat (padded bytes)" "pat \<noteq> []"
  shows "\<exists>k. indexOf (padded bytes) pat = int k \<and> k + length pat \<le> MAX_LEN \<and>
             occurs_at (padded bytes) pat k \<and> (\<forall>j<k. \<not> occurs_at (padded bytes) pat j)"
proof -
  from indexOf_found[OF assms] obtain k where
    k: "indexOf (padded bytes) pat = int k" "occurs_at (padded bytes) pat k"
       "\<forall>j<k. \<not> occurs_at (padded bytes) pat j" by blast
  from k(2) have "k + length pat \<le> MAX_LEN" by (simp add: occurs_at_def length_padded)
  with k show ?thesis by blast
qed

lemma rendered_oneHot:
  assumes "k < n"
  shows "length (map toString (oneHot n (int k))) = n \<and>
         (\<forall>i<n. map toString (oneHot n (int k)) ! i = (if i = k then ''1'' else ''0''))"
  by (simp add: oneHot_length oneHot_nth toString_bits)

lemma emitted_selector:
  assumes "sublist pat (padded bytes)" "pat \<noteq> []"
    and "sel = map toString (oneHot MAX_LEN (indexOf (padded bytes) pat))"
  shows "length sel = MAX_LEN \<and>
         (\<exists>k<MAX_LEN. indexOf (padded bytes) pat = int k \<and> occurs_at (padded bytes) pat k \<and>
            (\<forall>j<k. \<not> occurs_at (padded bytes) pat j) \<and>
            (\<forall>i<MAX_LEN. sel ! i = (if i = k then ''1'' else ''0'')))"
proof -
  from selector_of_found[OF assms(1,2)] obtain k where
    k: "indexOf (padded bytes) pat = int k" "k + length pat \<le> MAX_LEN"
       "occurs_at (padded bytes) pat k" "\<forall>j<k. \<not> occurs_at (padded bytes) pat j" by blast
  have "0 < length pat" using assms(2) by (cases pat) simp_all
  with k(2) have lt: "k < MAX_LEN" by arith
  from rendered_oneHot[OF lt] k lt show ?thesis unfolding assms(3) k(1) by blast
qed


subsection \<open>Arithmetic in the prime field and the bit decomposition\<close>

lemma is_prime_divisor:
  assumes "is_prime p" "d dvd p" "0 < d"
  shows "d = 1 \<or> d = p"
proof -
  from assms(1) have p: "1 < p" and nd: "\<And>e. 2 \<le> e \<Longrightarrow> e \<le> p - 1 \<Longrightarrow> \<not> e dvd p"
    by (auto simp: is_prime_def list_all_iff)
  have "d \<le> p" using assms(2) p by (intro zdvd_imp_le) auto
  with nd[of d] assms(2,3) show ?thesis by force
qed

lemma is_prime_dvd_mult:
  assumes "is_prime p" "p dvd a * b"
  shows "p dvd a \<or> p dvd b"
proof (cases "p dvd a")
  case True then show ?thesis ..
next
  case False
  from assms(1) have p: "1 < p" by (simp add: is_prime_def)
  have g: "gcd p a dvd p" by simp
  have "0 < gcd p a" using p by (simp add: gcd_pos_int)
  with is_prime_divisor[OF assms(1) g] have "gcd p a = 1 \<or> gcd p a = p" by simp
  moreover have "gcd p a \<noteq> p" using False by (metis gcd_dvd2)
  ultimately have "coprime p a" by (simp add: coprime_iff_gcd_eq_1)
  then have "p dvd b" using assms(2) by (simp add: coprime_dvd_mult_right_iff)
  then show ?thesis ..
qed

lemma boolean_constraint_mod:
  assumes "is_prime p" "(s * (s - 1)) mod p = 0"
  shows "s mod p = 0 \<or> s mod p = 1"
proof -
  from assms(1) have p: "1 < p" by (simp add: is_prime_def)
  from assms(2) have "p dvd s * (s - 1)" by (simp add: dvd_eq_mod_eq_0)
  with is_prime_dvd_mult[OF assms(1)] have "p dvd s \<or> p dvd (s - 1)" by blast
  then show ?thesis
  proof
    assume "p dvd s" then show ?thesis by (simp add: dvd_eq_mod_eq_0)
  next
    assume "p dvd (s - 1)"
    then have "(s - 1) mod p = 0" by (simp add: dvd_eq_mod_eq_0)
    then have "s mod p = 1 mod p" by (metis diff_add_cancel mod_add_left_eq add_0)
    then show ?thesis using p by simp
  qed
qed

lemma boolean_constraint:
  assumes "is_prime p" "field_elem p s" "(s * (s - 1)) mod p = 0"
  shows "s = 0 \<or> s = 1"
  using boolean_constraint_mod[OF assms(1,3)] assms(2) by (simp add: field_elem_def)

lemma lc1_mod: "lc1 (map (\<lambda>b. b mod p) out) mod p = lc1 out mod p"
proof (induction out)
  case Nil show ?case by simp
next
  case (Cons b bs)
  have "(2 * lc1 (map (\<lambda>b. b mod p) bs)) mod p = (2 * lc1 bs) mod p"
    by (rule mod_mult_cong) (simp_all add: Cons.IH)
  then have "(b mod p + 2 * lc1 (map (\<lambda>b. b mod p) bs)) mod p = (b + 2 * lc1 bs) mod p"
    by (intro mod_add_cong) simp_all
  then show ?case by simp
qed

lemma lc1_bits_bound:
  "list_all (\<lambda>b. b = 0 \<or> b = 1) out \<Longrightarrow> 0 \<le> lc1 out \<and> lc1 out < 2 ^ length out"
  by (induction out) auto

lemma length_bits_of: "length (bits_of n v) = n"
  by (induction n arbitrary: v) auto

lemma bits_of_boolean: "list_all (\<lambda>b. b = 0 \<or> b = 1) (bits_of n v)"
  by (induction n arbitrary: v) auto

lemma lc1_bits_of: "0 \<le> v \<Longrightarrow> v < 2 ^ n \<Longrightarrow> lc1 (bits_of n v) = v"
proof (induction n arbitrary: v)
  case 0 then show ?case by simp
next
  case (Suc n)
  have "0 \<le> v div 2" "v div 2 < 2 ^ n" using Suc.prems by auto
  then have "lc1 (bits_of n (v div 2)) = v div 2" by (rule Suc.IH)
  then show ?case by simp
qed

lemma Num2Bits_sound:
  assumes "is_prime p" "2 ^ n \<le> p" "field_elem p v" "Num2Bits p n v out"
  shows "v < 2 ^ n"
proof -
  let ?out = "map (\<lambda>b. b mod p) out"
  from assms(4) have len: "length out = n"
    and bool: "list_all (\<lambda>b. (b * (b - 1)) mod p = 0) out"
    and sum: "lc1 out mod p = v mod p" by (auto simp: Num2Bits_def)
  have "list_all (\<lambda>b. b = 0 \<or> b = 1) ?out"
    using bool boolean_constraint_mod[OF assms(1)] by (auto simp: list_all_iff)
  from lc1_bits_bound[OF this] len have b: "0 \<le> lc1 ?out" "lc1 ?out < 2 ^ n" by auto
  with assms(2) have "lc1 ?out mod p = lc1 ?out" by simp
  with lc1_mod[of p out] sum have "lc1 ?out = v mod p" by simp
  also have "v mod p = v" using assms(3) by (simp add: field_elem_def)
  finally show ?thesis using b by simp
qed

lemma Num2Bits_complete:
  assumes "1 < p" "0 \<le> v" "v < 2 ^ n"
  shows "field_elems p (bits_of n v) \<and> Num2Bits p n v (bits_of n v)"
proof -
  have "list_all (\<lambda>b. (b * (b - 1)) mod p = 0) (bits_of n v)"
    using bits_of_boolean[of n v] by (auto simp: list_all_iff)
  moreover have "field_elems p (bits_of n v)"
    using bits_of_boolean[of n v] assms(1) by (auto simp: list_all_iff field_elems_def field_elem_def)
  ultimately show ?thesis
    using assms by (simp add: Num2Bits_def length_bits_of lc1_bits_of)
qed

subsection \<open>The chunk encoding and the hash chain\<close>










subsection \<open>One-hot selectors\<close>

lemma map_nth_upt_take: "n \<le> length xs \<Longrightarrow> map (\<lambda>t. xs ! t) [0..<n] = take n xs"
  by (rule nth_equalityI) simp_all

lemma sum_list_boolean_bounds:
  "list_all (\<lambda>b. b = 0 \<or> b = (1::int)) xs \<Longrightarrow> 0 \<le> sum_list xs \<and> sum_list xs \<le> int (length xs)"
  by (induction xs) auto

lemma sum_list_boolean_zero:
  "list_all (\<lambda>b. b = 0 \<or> b = (1::int)) xs \<Longrightarrow> sum_list xs = 0 \<Longrightarrow> xs = replicate (length xs) 0"
proof (induction xs)
  case Nil then show ?case by simp
next
  case (Cons x xs)
  then have "0 \<le> sum_list xs" using sum_list_boolean_bounds[of xs] by simp
  with Cons.prems have "x = 0" "sum_list xs = 0" by auto
  with Cons show ?case by simp
qed

lemma sum_list_one_hot:
  "list_all (\<lambda>b. b = 0 \<or> b = (1::int)) xs \<Longrightarrow> sum_list xs = 1 \<Longrightarrow>
   \<exists>t<length xs. xs = (replicate (length xs) 0)[t := 1]"
proof (induction xs)
  case Nil then show ?case by simp
next
  case (Cons x xs)
  from Cons.prems(1) have x: "x = 0 \<or> x = 1" and b: "list_all (\<lambda>b. b = 0 \<or> b = 1) xs" by auto
  from x show ?case
  proof
    assume "x = 0"
    with Cons.prems(2) have "sum_list xs = 1" by simp
    from Cons.IH[OF b this] obtain t where "t < length xs" "xs = (replicate (length xs) 0)[t := 1]"
      by blast
    then have "Suc t < length (x # xs)" "x # xs = (replicate (length (x # xs)) 0)[Suc t := 1]"
      using \<open>x = 0\<close> by auto
    then show ?thesis by blast
  next
    assume "x = 1"
    with Cons.prems(2) have "sum_list xs = 0" by simp
    from sum_list_boolean_zero[OF b this] have "x # xs = (replicate (length (x # xs)) 0)[0 := 1]"
      using \<open>x = 1\<close> by simp
    then show ?thesis by blast
  qed
qed

lemma sum_list_replicate_update:
  "t < n \<Longrightarrow> sum_list ((replicate n (0::int))[t := 1]) = 1"
proof (induction n arbitrary: t)
  case 0 then show ?case by simp
next
  case (Suc n)
  then show ?case by (cases t) (simp_all add: sum_list_replicate)
qed

lemma field_diff_zero:
  assumes "field_elem p a" "field_elem p b" "(a - b) mod p = 0"
  shows "a = b"
proof -
  from assms(3) have "p dvd a - b" by (simp add: dvd_eq_mod_eq_0)
  moreover have "\<bar>a - b\<bar> < p" using assms(1,2) by (auto simp: field_elem_def)
  ultimately have "a - b = 0" by (metis zdvd_not_zless abs_zero dvd_abs_iff zabs_def zero_less_abs_iff not_less_iff_gr_or_eq)
  then show ?thesis by simp
qed

lemma is_prime_gt1: "is_prime p \<Longrightarrow> 1 < p"
  by (simp add: is_prime_def)

lemma valid_sum_conv:
  "(\<Sum>t = 0..n - l. (sel ! t :: int)) = sum_list (map (\<lambda>t. sel ! t) [0..<VALID_POSITIONS n l])"
proof -
  have "{0..n - l} = set [0..<VALID_POSITIONS n l]"
    by (auto simp: VALID_POSITIONS_def)
  then show ?thesis by (simp add: interv_sum_list_conv_sum_set_nat)
qed

lemma one_hot_nth: "t < n \<Longrightarrow> i < n \<Longrightarrow> (replicate n (0::int))[t := 1] ! i = (if i = t then 1 else 0)"
  by (simp add: nth_list_update)

lemma selector_constraints_one_hot:
  assumes p: "1 < p" and t: "t \<le> n - l" and l: "1 \<le> l" "l \<le> n"
  shows "selector_constraints p n l ((replicate n 0)[t := 1])"
proof -
  let ?sel = "(replicate n (0::int))[t := 1]"
  let ?V = "VALID_POSITIONS n l"
  have V: "?V \<le> n" "t < ?V" "t < n" using t l by (auto simp: VALID_POSITIONS_def)
  have nth: "\<And>i. i < n \<Longrightarrow> ?sel ! i = (if i = t then 1 else 0)"
    using V(3) by (simp add: one_hot_nth)
  have 1: "list_all (\<lambda>t. (?sel ! t * (?sel ! t - 1)) mod p = 0) [0..<?V]"
    unfolding list_all_iff using V(1) nth by auto
  have "map (\<lambda>t. ?sel ! t) [0..<?V] = take ?V ?sel"
    using V(1) by (intro map_nth_upt_take) simp
  also have "\<dots> = (replicate ?V 0)[t := 1]"
    using V by (simp add: take_update_swap min_def)
  finally have "sum_list (map (\<lambda>t. ?sel ! t) [0..<?V]) = 1"
    using V(2) by (simp add: sum_list_replicate_update)
  then have 2: "sum_list (map (\<lambda>t. ?sel ! t) [0..<?V]) mod p = 1 mod p" by simp
  have 3: "list_all (\<lambda>u. ?sel ! u mod p = 0) [?V..<n]"
    unfolding list_all_iff using V(2) nth by auto
  from 1 2 3 show ?thesis unfolding selector_constraints_def by blast
qed

lemma selector_constraints_imp_one_hot:
  assumes pr: "is_prime p" and np: "int n < p" and l: "1 \<le> l" "l \<le> n"
    and len: "length sel = n" and fe: "field_elems p sel"
    and sc: "selector_constraints p n l sel"
  shows "\<exists>t\<le>n - l. sel = (replicate n 0)[t := 1]"
proof -
  let ?V = "VALID_POSITIONS n l"
  have V: "?V \<le> n" "?V = n - l + 1" using l by (auto simp: VALID_POSITIONS_def)
  have can: "\<And>i. i < n \<Longrightarrow> field_elem p (sel ! i)"
    using fe len by (auto simp: field_elems_def list_all_iff)
  from sc have b: "\<And>t. t < ?V \<Longrightarrow> (sel ! t * (sel ! t - 1)) mod p = 0"
    and s: "sum_list (map (\<lambda>t. sel ! t) [0..<?V]) mod p = 1 mod p"
    and z: "\<And>u. ?V \<le> u \<Longrightarrow> u < n \<Longrightarrow> sel ! u mod p = 0"
    by (auto simp: selector_constraints_def list_all_iff)
  have bools: "list_all (\<lambda>b. b = 0 \<or> b = 1) (take ?V sel)"
    unfolding list_all_length
  proof (intro allI impI)
    fix i assume "i < length (take ?V sel)"
    then have i: "i < ?V" "i < n" using len by auto
    from boolean_constraint[OF pr can[OF i(2)] b[OF i(1)]] i
    show "take ?V sel ! i = 0 \<or> take ?V sel ! i = 1" by simp
  qed
  have m: "map (\<lambda>t. sel ! t) [0..<?V] = take ?V sel"
    using V(1) len by (intro map_nth_upt_take) simp
  have lt: "length (take ?V sel) = ?V" using V(1) len by simp
  from sum_list_boolean_bounds[OF bools] lt
  have "0 \<le> sum_list (take ?V sel)" "sum_list (take ?V sel) < p"
    using V(1) np by auto
  then have "sum_list (take ?V sel) mod p = sum_list (take ?V sel)" by simp
  moreover have "1 mod p = 1" using is_prime_gt1[OF pr] by simp
  ultimately have "sum_list (take ?V sel) = 1" using s m by simp
  from sum_list_one_hot[OF bools this] lt obtain t where
    t: "t < ?V" "take ?V sel = (replicate ?V 0)[t := 1]" by auto
  have d: "drop ?V sel = replicate (n - ?V) 0"
  proof (rule nth_equalityI)
    show "length (drop ?V sel) = length (replicate (n - ?V) (0::int))" using len by simp
  next
    fix i assume "i < length (drop ?V sel)"
    then have i: "?V + i < n" using len by simp
    have "sel ! (?V + i) mod p = 0" using z i by simp
    with can[OF i] have "sel ! (?V + i) = 0" by (simp add: field_elem_def)
    then show "drop ?V sel ! i = replicate (n - ?V) 0 ! i" using i len by simp
  qed
  have "sel = take ?V sel @ drop ?V sel" by simp
  also have "\<dots> = (replicate ?V 0)[t := 1] @ replicate (n - ?V) 0" using t(2) d by simp
  also have "\<dots> = (replicate ?V 0 @ replicate (n - ?V) 0)[t := 1]"
    using t(1) by (simp add: list_update_append1)
  also have "replicate ?V 0 @ replicate (n - ?V) (0::int) = replicate n 0"
    using V(1) by (simp add: replicate_add[symmetric])
  finally have "sel = (replicate n 0)[t := 1]" .
  moreover have "t \<le> n - l" using t(1) V(2) by simp
  ultimately show ?thesis by blast
qed

lemma match_constraints_one_hot:
  assumes p: "1 < p" and t: "t \<le> n - l" and l: "1 \<le> l" "l \<le> n"
    and len: "length ed = n" "length pat = l"
    and fe: "field_elems p ed" "field_elems p pat"
  shows "match_constraints p n l ed pat ((replicate n 0)[t := 1]) \<longleftrightarrow> take l (drop t ed) = pat"
proof -
  let ?sel = "(replicate n (0::int))[t := 1]"
  let ?V = "VALID_POSITIONS n l"
  have V: "?V \<le> n" "t < ?V" "t < n" using t l by (auto simp: VALID_POSITIONS_def)
  have nth: "\<And>i. i < n \<Longrightarrow> ?sel ! i = (if i = t then 1 else 0)"
    using V(3) by (simp add: one_hot_nth)
  have mc: "match_constraints p n l ed pat ?sel \<longleftrightarrow>
        (\<forall>i<l. \<forall>t2<?V. (?sel ! t2 * (ed ! (t2 + i) - pat ! i)) mod p = 0)"
    by (auto simp: match_constraints_def list_all_iff)
  have ti: "\<And>i. i < l \<Longrightarrow> t + i < n" using t l by simp
  show ?thesis
  proof
    assume "match_constraints p n l ed pat ?sel"
    with mc V(2) have c: "\<And>i. i < l \<Longrightarrow> (?sel ! t * (ed ! (t + i) - pat ! i)) mod p = 0"
      by blast
    show "take l (drop t ed) = pat"
    proof (rule nth_equalityI)
      show "length (take l (drop t ed)) = length pat" using len t l by simp
    next
      fix i assume "i < length (take l (drop t ed))"
      then have i: "i < l" by simp
      have d: "(ed ! (t + i) - pat ! i) mod p = 0" using c[OF i] nth[OF V(3)] by simp
      have f: "field_elem p (ed ! (t + i))" "field_elem p (pat ! i)"
        using fe len ti[OF i] i by (auto simp: field_elems_def list_all_length)
      have "ed ! (t + i) = pat ! i" by (rule field_diff_zero[OF f d])
      then show "take l (drop t ed) ! i = pat ! i" using i ti[OF i] len by simp
    qed
  next
    assume eq: "take l (drop t ed) = pat"
    have e: "\<And>i. i < l \<Longrightarrow> ed ! (t + i) = pat ! i"
    proof -
      fix i assume i: "i < l"
      have "pat ! i = take l (drop t ed) ! i" using eq by simp
      also have "\<dots> = ed ! (t + i)" using i ti[OF i] len by simp
      finally show "ed ! (t + i) = pat ! i" by simp
    qed
    show "match_constraints p n l ed pat ?sel"
      unfolding mc
    proof (intro allI impI)
      fix i t2 assume i: "i < l" and t2: "t2 < ?V"
      then have "t2 < n" using V(1) by simp
      then show "(?sel ! t2 * (ed ! (t2 + i) - pat ! i)) mod p = 0"
        using nth[of t2] e[OF i] by (cases "t2 = t") simp_all
    qed
  qed
qed


section \<open>The commitment: builder against circuit\<close>

lemma byte_array_of_nth:
  "k < 31 \<Longrightarrow> byte_array_of mx ed c ! k = (if c * 31 + k < mx then ed ! (c * 31 + k) else 0)"
  by (simp add: byte_array_of_def Let_def del: upt_Suc)










section \<open>The pattern matcher\<close>

lemma field_elems_nth: "field_elems p xs \<Longrightarrow> i < length xs \<Longrightarrow> field_elem p (xs ! i)"
  by (simp add: field_elems_def list_all_length)

lemma one_hot_plain_constraints:
  assumes t: "t \<le> n - l" and l: "1 \<le> l" "l \<le> n"
    and len: "length (ed :: int list) = n" "length pat = l" and eq: "take l (drop t ed) = pat"
    and sel: "sel = (replicate n 0)[t := 1]"
  shows "(\<forall>i<n. sel ! i = 0 \<or> sel ! i = 1) \<and>
         (\<Sum>i = 0..n - l. sel ! i) = 1 \<and>
         (\<forall>u. n - l < u \<and> u < n \<longrightarrow> sel ! u = 0) \<and>
         (\<forall>i<l. \<forall>s\<le>n - l. sel ! s * (ed ! (s + i) - pat ! i) = 0)"
proof -
  let ?sel = "(replicate n (0::int))[t := 1]"
  let ?V = "VALID_POSITIONS n l"
  have V: "?V \<le> n" "t < ?V" "t < n" using t l by (auto simp: VALID_POSITIONS_def)
  have nth: "\<And>i. i < n \<Longrightarrow> ?sel ! i = (if i = t then 1 else 0)"
    using V(3) by (simp add: one_hot_nth)
  have "map (\<lambda>t. ?sel ! t) [0..<?V] = take ?V ?sel"
    using V(1) by (intro map_nth_upt_take) simp
  also have "\<dots> = (replicate ?V 0)[t := 1]"
    using V by (simp add: take_update_swap min_def)
  finally have s: "(\<Sum>i = 0..n - l. ?sel ! i) = 1"
    using V(2) by (simp add: valid_sum_conv sum_list_replicate_update)
  have e: "\<And>i. i < l \<Longrightarrow> ed ! (t + i) = pat ! i"
  proof -
    fix i assume i: "i < l"
    have "pat ! i = take l (drop t ed) ! i" using eq by simp
    also have "\<dots> = ed ! (t + i)" using i t l len by simp
    finally show "ed ! (t + i) = pat ! i" by simp
  qed
  have m: "\<forall>i<l. \<forall>s\<le>n - l. ?sel ! s * (ed ! (s + i) - pat ! i) = 0"
  proof (intro allI impI)
    fix i s assume i: "i < l" and s: "s \<le> n - l"
    then have "s < n" using l by simp
    then show "?sel ! s * (ed ! (s + i) - pat ! i) = 0"
      using nth[of s] e[OF i] by (cases "s = t") simp_all
  qed
  have z: "\<forall>u. n - l < u \<and> u < n \<longrightarrow> ?sel ! u = 0" using nth t by auto
  have b: "\<forall>i<n. ?sel ! i = 0 \<or> ?sel ! i = 1" using nth by auto
  show ?thesis unfolding sel by (intro conjI) (fact b, fact s, fact z, fact m)
qed

lemma plain_constraints_imp:
  assumes l: "1 \<le> l" "l \<le> n"
    and A: "\<forall>i<n. sel ! i = 0 \<or> sel ! i = (1::int)"
           "(\<Sum>i = 0..n - l. sel ! i) = 1"
           "\<forall>u. n - l < u \<and> u < n \<longrightarrow> sel ! u = 0"
           "\<forall>i<l. \<forall>s\<le>n - l. sel ! s * (ed ! (s + i) - pat ! i) = 0"
  shows "selector_constraints p n l sel \<and> match_constraints p n l ed pat sel"
proof -
  let ?V = "VALID_POSITIONS n l"
  have V: "?V \<le> n" "?V = n - l + 1" using l by (auto simp: VALID_POSITIONS_def)
  have 1: "list_all (\<lambda>t. (sel ! t * (sel ! t - 1)) mod p = 0) [0..<?V]"
    unfolding list_all_iff
  proof
    fix t assume "t \<in> set [0..<?V]"
    then have "t < n" using V(1) by simp
    with A(1) have "sel ! t = 0 \<or> sel ! t = 1" by blast
    then show "(sel ! t * (sel ! t - 1)) mod p = 0" by auto
  qed
  have 2: "sum_list (map (\<lambda>t. sel ! t) [0..<?V]) mod p = 1 mod p"
    using A(2) by (simp add: valid_sum_conv)
  have 3: "list_all (\<lambda>u. sel ! u mod p = 0) [?V..<n]"
    unfolding list_all_iff using A(3) V(2) by auto
  have 4: "match_constraints p n l ed pat sel"
    unfolding match_constraints_def list_all_iff
  proof (intro ballI)
    fix i t2 assume "i \<in> set [0..<l]" "t2 \<in> set [0..<?V]"
    then have "i < l" "t2 \<le> n - l" using V(2) by auto
    with A(4) have "sel ! t2 * (ed ! (t2 + i) - pat ! i) = 0" by blast
    then show "(sel ! t2 * (ed ! (t2 + i) - pat ! i)) mod p = 0" by (simp only: mod_0)
  qed
  from 1 2 3 4 show ?thesis by (simp add: selector_constraints_def)
qed

text \<open>
  Claim C2. For signals of a prime field larger than the buffer, the constraints of
  \<open>PatternMatcher\<close> hold if and only if the selector is boolean at every index, its
  entries over the valid window sum to 1, every entry after the window is 0, and
  \<open>selector[t] * (buffer[t + i] - pattern[i]) = 0\<close> for every pattern position \<open>i\<close> and
  every valid start \<open>t\<close>; equivalently, the selector is one-hot at an offset of the valid
  window and the buffer bytes starting at that offset equal the pattern.
\<close>

theorem PatternMatcher_iff:
  assumes "is_prime p" and "int MAX_EMAIL_LEN < p"
    and "1 \<le> PATTERN_LEN" and "PATTERN_LEN \<le> MAX_EMAIL_LEN"
    and "length email_data = MAX_EMAIL_LEN" and "length pattern = PATTERN_LEN"
    and "length selector = MAX_EMAIL_LEN"
    and "field_elems p email_data" and "field_elems p pattern" and "field_elems p selector"
  shows "(PatternMatcher p MAX_EMAIL_LEN PATTERN_LEN email_data pattern selector \<longleftrightarrow>
           (\<forall>t<MAX_EMAIL_LEN. selector ! t = 0 \<or> selector ! t = 1) \<and>
           (\<Sum>t = 0..MAX_EMAIL_LEN - PATTERN_LEN. selector ! t) = 1 \<and>
           (\<forall>u. MAX_EMAIL_LEN - PATTERN_LEN < u \<and> u < MAX_EMAIL_LEN \<longrightarrow> selector ! u = 0) \<and>
           (\<forall>i<PATTERN_LEN. \<forall>t\<le>MAX_EMAIL_LEN - PATTERN_LEN.
              selector ! t * (email_data ! (t + i) - pattern ! i) = 0))
       \<and> (PatternMatcher p MAX_EMAIL_LEN PATTERN_LEN email_data pattern selector \<longleftrightarrow>
           (\<exists>t\<le>MAX_EMAIL_LEN - PATTERN_LEN.
              selector = (replicate MAX_EMAIL_LEN 0)[t := 1] \<and>
              take PATTERN_LEN (drop t email_data) = pattern))"
    (is "(?PM \<longleftrightarrow> ?A) \<and> (?PM \<longleftrightarrow> ?B)")
proof -
  have p1: "1 < p" using assms(1) by (rule is_prime_gt1)
  have PB: "?B" if pm: "?PM"
  proof -
    from pm have sc: "selector_constraints p MAX_EMAIL_LEN PATTERN_LEN selector"
      and mc: "match_constraints p MAX_EMAIL_LEN PATTERN_LEN email_data pattern selector"
      by (simp_all add: PatternMatcher_def)
    from selector_constraints_imp_one_hot[OF assms(1,2,3,4,7,10) sc] obtain t where
      t: "t \<le> MAX_EMAIL_LEN - PATTERN_LEN" "selector = (replicate MAX_EMAIL_LEN 0)[t := 1]"
      by blast
    from mc match_constraints_one_hot[OF p1 t(1) assms(3,4,5,6,8,9)]
    have "take PATTERN_LEN (drop t email_data) = pattern" unfolding t(2) by simp
    with t show ?thesis by blast
  qed
  have BA: "?A" if b: "?B"
  proof -
    from b obtain t where
      t: "t \<le> MAX_EMAIL_LEN - PATTERN_LEN" "selector = (replicate MAX_EMAIL_LEN 0)[t := 1]"
         "take PATTERN_LEN (drop t email_data) = pattern" by blast
    show ?thesis
      by (rule one_hot_plain_constraints[OF t(1) assms(3,4,5,6) t(3) t(2)])
  qed
  have AP: "?PM" if a: "?A"
  proof -
    from a
    have "selector_constraints p MAX_EMAIL_LEN PATTERN_LEN selector \<and>
          match_constraints p MAX_EMAIL_LEN PATTERN_LEN email_data pattern selector"
      by (elim conjE) (rule plain_constraints_imp[OF assms(3,4)])
    then show ?thesis using assms(5,6,7) by (simp add: PatternMatcher_def)
  qed
  have "?PM \<longleftrightarrow> ?A"
  proof
    assume ?PM then show ?A by (rule BA[OF PB])
  next
    assume ?A then show ?PM by (rule AP)
  qed
  moreover have "?PM \<longleftrightarrow> ?B"
  proof
    assume ?PM then show ?B by (rule PB)
  next
    assume ?B then show ?PM by (rule AP[OF BA])
  qed
  ultimately show ?thesis by (rule conjI)
qed

theorem PatternMatcher_iff_witness:
  "is_prime 11 \<and> PatternMatcher 11 4 2 [1, 2, 3, 4] [2, 3] [0, 1, 0, 0]
   \<and> \<not> PatternMatcher 11 4 2 [1, 2, 3, 4] [2, 3] [1, 0, 0, 0]"
proof -
  have pr: "is_prime 11" by (simp add: is_prime_def)
  have h: "int 4 < 11" "(1::nat) \<le> 2" "(2::nat) \<le> 4" "length [1, 2, 3, 4 :: int] = 4"
    "length [2, 3 :: int] = 2" "field_elems 11 [1, 2, 3, 4]" "field_elems 11 [2, 3]"
    by (simp_all add: field_elems_def field_elem_def)
  have s1: "length [0, 1, 0, 0 :: int] = 4" "field_elems 11 [0, 1, 0, 0]"
    and s2: "length [1, 0, 0, 0 :: int] = 4" "field_elems 11 [1, 0, 0, 0]"
    by (simp_all add: field_elems_def field_elem_def)
  have "\<exists>t\<le>4 - 2. [0, 1, 0, 0] = (replicate 4 (0::int))[t := 1] \<and>
          take 2 (drop t [1, 2, 3, 4 :: int]) = [2, 3]"
    by (rule exI[of _ 1]) (simp add: eval_nat_numeral)
  with PatternMatcher_iff[OF pr h(1,2,3,4,5) s1(1) h(6,7) s1(2)]
  have a: "PatternMatcher 11 4 2 [1, 2, 3, 4] [2, 3] [0, 1, 0, 0]" by blast
  have "\<not> (\<forall>i<2. \<forall>t\<le>4 - 2. [1, 0, 0, 0] ! t * ([1, 2, 3, 4] ! (t + i) - [2, 3] ! i) = (0::int))"
  proof
    assume "\<forall>i<2. \<forall>t\<le>4 - 2. [1, 0, 0, 0] ! t * ([1, 2, 3, 4] ! (t + i) - [2, 3] ! i) = (0::int)"
    from this[rule_format, of 0 0] show False by simp
  qed
  with PatternMatcher_iff[OF pr h(1,2,3,4,5) s2(1) h(6,7) s2(2)]
  have b: "\<not> PatternMatcher 11 4 2 [1, 2, 3, 4] [2, 3] [1, 0, 0, 0]" by blast
  from pr a b show ?thesis by blast
qed


section \<open>The byte range check\<close>

lemma chunk_cover:
  assumes "i < mx" "mx \<le> 31 * chunkCount"
  shows "i div 31 < chunkCount \<and> i mod 31 < 31 \<and> (i div 31) * 31 + i mod 31 = (i::nat)"
proof -
  have "i < chunkCount * 31" using assms by simp
  then have "i div 31 < chunkCount" by (rule less_mult_imp_div_less)
  then show ?thesis by simp
qed

lemma SequentialPoseidonHash_range:
  assumes pr: "is_prime p" and big: "256 \<le> p" and cov: "mx \<le> 31 * chunkCount"
    and fe: "field_elems p email_data"
    and sat: "SequentialPoseidonHash p H mx chunkCount email_data bits hash_result"
    and i: "i < mx"
  shows "email_data ! i \<le> 255"
proof -
  let ?c = "i div 31" and ?k = "i mod 31"
  from chunk_cover[OF i cov] have c: "?c < chunkCount" and k: "?k < 31"
    and ck: "?c * 31 + ?k = i" by simp_all
  from sat have len: "length email_data = mx"
    and enc: "EncodeBytesToField p (byte_array_of mx email_data ?c) (bits ! ?c)
                (field_encoders p mx email_data ?c)"
    using c by (auto simp: SequentialPoseidonHash_def list_all_iff)
  from enc k have "ValidateByteRange p (byte_array_of mx email_data ?c ! ?k) (bits ! ?c ! ?k) 1"
    by (auto simp: EncodeBytesToField_def list_all_iff)
  then have n2b: "Num2Bits p 8 (email_data ! i) (bits ! ?c ! ?k)"
    using k ck i by (simp add: ValidateByteRange_def byte_array_of_nth)
  have "field_elem p (email_data ! i)" using fe len i by (simp add: field_elems_nth)
  from Num2Bits_sound[OF pr _ this n2b] big have "email_data ! i < 2 ^ 8" by simp
  then show ?thesis by simp
qed

lemma out_of_range_unsatisfiable:
  assumes "is_prime p" and "256 \<le> p" and "field_elems p email_data"
    and "i < length email_data" and "255 < email_data ! i"
  shows "\<not> SequentialPoseidonHash p H 8192 265 email_data bits hash_result"
proof
  assume sat: "SequentialPoseidonHash p H 8192 265 email_data bits hash_result"
  then have len: "length email_data = 8192" by (simp add: SequentialPoseidonHash_def)
  have i: "i < 8192" using assms(4) len by simp
  have "(8192::nat) \<le> 31 * 265" by simp
  from SequentialPoseidonHash_range[OF assms(1,2) this assms(3) sat i] assms(5)
  show False by simp
qed

text \<open>
  Claim C3. The range check of a buffer signal \<open>v\<close> (\<open>ValidateByteRange\<close>, whose
  constraints are those of \<open>Num2Bits(8)\<close>) can be satisfied if and only if \<open>v\<close> lies in
  \<open>[0, 255]\<close>; and a buffer with an element above 255 admits no assignment that satisfies
  \<open>SequentialPoseidonHash(8192, 265)\<close>, hence none that satisfies the main component
  \<open>EmailHeaderVerifier(8192)\<close>, whatever the other signals are.
\<close>

theorem byte_range_check:
  assumes "is_prime p" and "256 \<le> p"
  shows "(field_elem p v \<longrightarrow>
            ((\<exists>bits. field_elems p bits \<and> ValidateByteRange p v bits 1) \<longleftrightarrow> v \<le> 255))
       \<and> (field_elems p email_data \<and> (\<exists>i<length email_data. 255 < email_data ! i) \<longrightarrow>
            \<not> (\<exists>bits hash_result.
                  SequentialPoseidonHash p H 8192 265 email_data bits hash_result) \<and>
            \<not> (\<exists>email_hash from_header_bytes to_header_bytes gmail_domain_bytes
                    from_selector to_selector domain_selector bits.
                  EmailHeaderVerifier p H 8192 email_hash email_data from_header_bytes
                    to_header_bytes gmail_domain_bytes from_selector to_selector
                    domain_selector bits))"
proof (intro conjI impI)
  assume v: "field_elem p v"
  have p1: "1 < p" using assms(1) by (rule is_prime_gt1)
  show "(\<exists>bits. field_elems p bits \<and> ValidateByteRange p v bits 1) \<longleftrightarrow> v \<le> 255"
  proof
    assume "\<exists>bits. field_elems p bits \<and> ValidateByteRange p v bits 1"
    then obtain bits where "Num2Bits p 8 v bits" by (auto simp: ValidateByteRange_def)
    from Num2Bits_sound[OF assms(1) _ v this] assms(2) have "v < 2 ^ 8" by simp
    then show "v \<le> 255" by simp
  next
    assume "v \<le> 255"
    then have "0 \<le> v" "v < 2 ^ 8" using v by (simp_all add: field_elem_def)
    from Num2Bits_complete[OF p1 this]
    have "field_elems p (bits_of 8 v) \<and> ValidateByteRange p v (bits_of 8 v) 1"
      by (simp add: ValidateByteRange_def)
    then show "\<exists>bits. field_elems p bits \<and> ValidateByteRange p v bits 1" by blast
  qed
next
  assume a: "field_elems p email_data \<and> (\<exists>i<length email_data. 255 < email_data ! i)"
  then obtain i where i: "i < length email_data" "255 < email_data ! i" by blast
  from out_of_range_unsatisfiable[OF assms conjunct1[OF a] i]
  show "\<not> (\<exists>bits hash_result. SequentialPoseidonHash p H 8192 265 email_data bits hash_result)"
    by blast
next
  assume a: "field_elems p email_data \<and> (\<exists>i<length email_data. 255 < email_data ! i)"
  then obtain i where i: "i < length email_data" "255 < email_data ! i" by blast
  note u = out_of_range_unsatisfiable[OF assms conjunct1[OF a] i]
  show "\<not> (\<exists>email_hash from_header_bytes to_header_bytes gmail_domain_bytes
                    from_selector to_selector domain_selector bits.
                  EmailHeaderVerifier p H 8192 email_hash email_data from_header_bytes
                    to_header_bytes gmail_domain_bytes from_selector to_selector
                    domain_selector bits)"
    using u by (auto simp: EmailHeaderVerifier_def Let_def)
qed

theorem byte_range_check_witness:
  "is_prime 257 \<and> (\<exists>bits. field_elems 257 bits \<and> ValidateByteRange 257 200 bits 1)
   \<and> \<not> (\<exists>bits. field_elems 257 bits \<and> ValidateByteRange 257 256 bits 1)"
proof -
  have pr: "is_prime 257" by (simp add: is_prime_def)
  have big: "(256::int) \<le> 257" by simp
  have f: "field_elem 257 200" "field_elem 257 256" by (simp_all add: field_elem_def)
  from byte_range_check[OF pr big, of 200] f(1)
  have a: "\<exists>bits. field_elems 257 bits \<and> ValidateByteRange 257 200 bits 1" by simp
  from byte_range_check[OF pr big, of 256] f(2)
  have b: "\<not> (\<exists>bits. field_elems 257 bits \<and> ValidateByteRange 257 256 bits 1)" by simp
  from pr a b show ?thesis by blast
qed


section \<open>The builder on concrete inputs, and its failure\<close>

lemma padded_short:
  "length bs \<le> MAX_LEN \<Longrightarrow> padded bs = map uint bs @ replicate (MAX_LEN - length bs) 0"
  by (simp add: padded_eq)

lemma sublist_padded_short:
  assumes "val \<noteq> []" "last val \<noteq> 0" "length bs \<le> MAX_LEN"
  shows "sublist val (padded bs) \<longleftrightarrow> sublist val (map uint bs)"
  using sublist_padded[OF assms(1,2), of bs] assms(3) by simp

lemma indexOf_padded_short:
  assumes "sublist val (map uint bs)" "val \<noteq> []" "length bs \<le> MAX_LEN"
  shows "indexOf (padded bs) val = indexOf (map uint bs) val"
  unfolding padded_short[OF assms(3)] by (rule indexOf_append[OF assms(1,2)])

lemma mail1_ints: "map uint mail1 = map of_char ''From: a@x.com To: b@x.com some@gmail.com body''"
  by (simp add: mail1_def bytes_of_def)

lemma mail1_len: "length mail1 \<le> MAX_LEN"
  by (simp add: mail1_def bytes_of_def MAX_LEN_def)

lemma mail1_idx:
  "indexOf (map uint mail1) from_pattern = 0"
  "indexOf (map uint mail1) to_pattern = 14"
  "indexOf (map uint mail1) atg_pattern = 30"
  by (simp_all add: mail1_ints patterns indexOf_def)

lemma mail1_sub:
  "sublist from_pattern (map uint mail1)"
  "sublist to_pattern (map uint mail1)"
  "sublist atg_pattern (map uint mail1)"
  using mail1_idx indexOf_nonneg_iff[OF patterns_nonempty(1), of "map uint mail1"]
    indexOf_nonneg_iff[OF patterns_nonempty(2), of "map uint mail1"]
    indexOf_nonneg_iff[OF patterns_nonempty(3), of "map uint mail1"]
  by simp_all

lemma build_absent:
  assumes "pat \<in> set [from_pattern, to_pattern, atg_pattern]" "\<not> sublist pat (padded bytes)"
  shows "buildCircuitInput p H bytes = Inl missing_literals"
  using assms unfolding build_cases by auto

text \<open>
  Claim C4 (as amended). When the padded buffer lacks one of the three patterns, the builder
  fails with its single error, whose message names all three literals and is the same
  whichever pattern is missing; the result does not depend on the hash function, which is
  never called. When the padded buffer contains all three patterns, the builder returns an
  input object.
\<close>

theorem build_fails_iff_pattern_missing:
  "(\<not> sublist from_pattern (padded bytes) \<or> \<not> sublist to_pattern (padded bytes)
      \<or> \<not> sublist atg_pattern (padded bytes)
      \<longrightarrow> (\<forall>q G. buildCircuitInput q G bytes = Inl missing_literals))
   \<and> (sublist from_pattern (padded bytes) \<and> sublist to_pattern (padded bytes)
      \<and> sublist atg_pattern (padded bytes)
      \<longrightarrow> (\<exists>a. buildCircuitInput p H bytes = Inr a))"
  unfolding build_cases by auto

lemma mail_no_to_facts:
  "length mail_no_to \<le> MAX_LEN"
  "indexOf (map uint mail_no_to) from_pattern = 0"
  "indexOf (map uint mail_no_to) to_pattern = - 1"
  "indexOf (map uint mail_no_to) atg_pattern = 7"
  by (simp_all add: mail_no_to_def bytes_of_def MAX_LEN_def patterns indexOf_def)

lemma mail_no_from_facts:
  "length mail_no_from \<le> MAX_LEN"
  "indexOf (map uint mail_no_from) from_pattern = - 1"
  "indexOf (map uint mail_no_from) to_pattern = 0"
  "indexOf (map uint mail_no_from) atg_pattern = 5"
  by (simp_all add: mail_no_from_def bytes_of_def MAX_LEN_def patterns indexOf_def)

lemma sublist_padded_eval:
  assumes "val \<noteq> []" "last val \<noteq> 0" "length bs \<le> MAX_LEN"
  shows "sublist val (padded bs) \<longleftrightarrow> 0 \<le> indexOf (map uint bs) val"
  using sublist_padded_short[OF assms] indexOf_nonneg_iff[OF assms(1), of "map uint bs"] by auto

theorem missing_pattern_not_identified:
  "sublist from_pattern (padded mail_no_to) \<and> \<not> sublist to_pattern (padded mail_no_to) \<and>
   \<not> sublist from_pattern (padded mail_no_from) \<and> sublist to_pattern (padded mail_no_from) \<and>
   buildCircuitInput 7 H0 mail_no_to
     = Inl (Error ''Required literals not found in .eml (need From:, To:, and @gmail.com)'') \<and>
   buildCircuitInput 7 H0 mail_no_from
     = Inl (Error ''Required literals not found in .eml (need From:, To:, and @gmail.com)'')"
proof -
  have 1: "sublist from_pattern (padded mail_no_to)"
    and 2: "\<not> sublist to_pattern (padded mail_no_to)"
    by (simp_all add: sublist_padded_eval patterns_nonempty mail_no_to_facts)
  have 3: "\<not> sublist from_pattern (padded mail_no_from)"
    and 4: "sublist to_pattern (padded mail_no_from)"
    by (simp_all add: sublist_padded_eval patterns_nonempty mail_no_from_facts)
  have 5: "buildCircuitInput 7 H0 mail_no_to = Inl missing_literals"
    by (rule build_absent[OF _ 2]) simp
  have 6: "buildCircuitInput 7 H0 mail_no_from = Inl missing_literals"
    by (rule build_absent[OF _ 3]) simp
  from 1 2 3 4 5 6 show ?thesis unfolding missing_literals_def by blast
qed

theorem build_fails_iff_pattern_missing_witness:
  "buildCircuitInput 7 H0 mail_no_to = Inl missing_literals \<and>
   (\<exists>a. buildCircuitInput 7 H0 mail1 = Inr a)"
proof -
  have 2: "\<not> sublist to_pattern (padded mail_no_to)"
    by (simp add: sublist_padded_eval patterns_nonempty mail_no_to_facts)
  have 3: "sublist from_pattern (padded mail1)" "sublist to_pattern (padded mail1)"
    "sublist atg_pattern (padded mail1)"
    by (simp_all add: sublist_padded_eval patterns_nonempty mail1_len mail1_idx)
  from build_fails_iff_pattern_missing[of mail_no_to 7 H0] 2
  have a: "buildCircuitInput 7 H0 mail_no_to = Inl missing_literals" by blast
  from build_fails_iff_pattern_missing[of mail1 7 H0] 3
  have b: "\<exists>a. buildCircuitInput 7 H0 mail1 = Inr a" by blast
  from a b show ?thesis by blast
qed

section \<open>Selectors and the padded buffer\<close>

text \<open>
  Claim C5. When the builder returns an input object, each of the three selectors has
  length 8192; it holds \<open>1\<close> at the offset of the first occurrence of its pattern in the
  padded buffer and \<open>0\<close> at every other index, and the bytes of the buffer at that offset
  are the pattern.
\<close>

theorem selector_marks_first_occurrence:
  assumes "buildCircuitInput p H bytes = Inr a"
  shows "eml a = map toString (padded bytes) \<and>
         (\<forall>(pat, sel) \<in> set [(from_pattern, sel_from a), (to_pattern, sel_to a),
                               (atg_pattern, sel_atg a)].
            length sel = MAX_LEN \<and>
            (\<exists>k<MAX_LEN. indexOf (padded bytes) pat = int k \<and>
               occurs_at (padded bytes) pat k \<and>
               (\<forall>j<k. \<not> occurs_at (padded bytes) pat j) \<and>
               (\<forall>i<MAX_LEN. sel ! i = (if i = k then ''1'' else ''0''))))"
proof -
  from assms have s: "sublist from_pattern (padded bytes)" "sublist to_pattern (padded bytes)"
      "sublist atg_pattern (padded bytes)"
    and a: "a = \<lparr> eml_commitment = toString (hash_loop p H (padded bytes) 0 0),
                 eml = map toString (padded bytes),
                 from_bytes = map toString from_pattern,
                 to_bytes = map toString to_pattern,
                 atg_bytes = map toString atg_pattern,
                 sel_from = map toString (oneHot MAX_LEN (indexOf (padded bytes) from_pattern)),
                 sel_to = map toString (oneHot MAX_LEN (indexOf (padded bytes) to_pattern)),
                 sel_atg = map toString (oneHot MAX_LEN (indexOf (padded bytes) atg_pattern)) \<rparr>"
    unfolding build_cases by (auto split: if_splits)
  have 1: "sel_from a = map toString (oneHot MAX_LEN (indexOf (padded bytes) from_pattern))"
    and 2: "sel_to a = map toString (oneHot MAX_LEN (indexOf (padded bytes) to_pattern))"
    and 3: "sel_atg a = map toString (oneHot MAX_LEN (indexOf (padded bytes) atg_pattern))"
    and 4: "eml a = map toString (padded bytes)"
    by (simp_all add: a)
  from emitted_selector[OF s(1) patterns_nonempty(1) 1]
       emitted_selector[OF s(2) patterns_nonempty(2) 2]
       emitted_selector[OF s(3) patterns_nonempty(3) 3] 4
  show ?thesis by simp
qed

theorem selector_marks_first_occurrence_witness:
  "\<exists>a. buildCircuitInput 7 H0 mail1 = Inr a \<and> length (sel_to a) = 8192 \<and>
       sel_to a ! 14 = ''1'' \<and> sel_to a ! 13 = ''0'' \<and> sel_to a ! 8191 = ''0'' \<and>
       occurs_at (padded mail1) to_pattern 14"
proof -
  have 3: "sublist from_pattern (padded mail1)" "sublist to_pattern (padded mail1)"
    "sublist atg_pattern (padded mail1)"
    by (simp_all add: sublist_padded_eval patterns_nonempty mail1_len mail1_idx)
  then obtain a where a: "buildCircuitInput 7 H0 mail1 = Inr a"
    unfolding build_cases by auto
  have i: "indexOf (padded mail1) to_pattern = 14"
    using indexOf_padded_short[OF mail1_sub(2) patterns_nonempty(2) mail1_len] mail1_idx(2)
    by simp
  from selector_marks_first_occurrence[OF a]
  have "length (sel_to a) = MAX_LEN \<and>
        (\<exists>k<MAX_LEN. indexOf (padded mail1) to_pattern = int k \<and>
           occurs_at (padded mail1) to_pattern k \<and>
           (\<forall>i<MAX_LEN. sel_to a ! i = (if i = k then ''1'' else ''0'')))"
    by auto
  then obtain k where l: "length (sel_to a) = MAX_LEN" and k: "int k = 14"
    and o: "occurs_at (padded mail1) to_pattern k"
    and s: "\<forall>i<MAX_LEN. sel_to a ! i = (if i = k then ''1'' else ''0'')"
    using i by auto
  from k have k14: "k = 14" by simp
  from s have "sel_to a ! 14 = ''1''" "sel_to a ! 13 = ''0''" "sel_to a ! 8191 = ''0''"
    unfolding k14 by (simp_all add: MAX_LEN_def)
  with a l o show ?thesis unfolding k14 by (auto simp: MAX_LEN_def)
qed

lemma build_success_fields:
  assumes "buildCircuitInput p H bytes = Inr a"
  shows "sublist from_pattern (padded bytes)" "sublist to_pattern (padded bytes)"
    "sublist atg_pattern (padded bytes)"
    "eml_commitment a = toString (hash_loop p H (padded bytes) 0 0)"
    "eml a = map toString (padded bytes)"
    "sel_from a = map toString (oneHot MAX_LEN (indexOf (padded bytes) from_pattern))"
    "sel_to a = map toString (oneHot MAX_LEN (indexOf (padded bytes) to_pattern))"
    "sel_atg a = map toString (oneHot MAX_LEN (indexOf (padded bytes) atg_pattern))"
  using assms unfolding build_cases by (auto split: if_splits)












text \<open>
  Claim C10. When the builder returns an input object, each selector satisfies the
  selector constraints of \<open>PatternMatcher\<close> for its pattern length \<open>L\<close>, in any field: the
  offset of the first occurrence lies in \<open>[0, 8192 - L]\<close>, the selector is the one-hot vector
  of that offset, its single 1 is inside the valid window and every entry from index
  \<open>8192 - L + 1\<close> on is 0.
\<close>

theorem emitted_selectors_satisfy_window:
  assumes "1 < q" and "buildCircuitInput p H bytes = Inr a"
  shows "\<forall>(pat, sel) \<in> set [(from_pattern, sel_from a), (to_pattern, sel_to a),
                              (atg_pattern, sel_atg a)].
           \<exists>k\<le>8192 - length pat.
              indexOf (padded bytes) pat = int k \<and>
              sel = map toString (oneHot 8192 (int k)) \<and>
              selector_constraints q 8192 (length pat) (oneHot 8192 (int k)) \<and>
              sel ! k = ''1'' \<and>
              (\<forall>i. 8192 - length pat + 1 \<le> i \<and> i < 8192 \<longrightarrow> sel ! i = ''0'')"
proof -
  have one: "\<exists>k\<le>8192 - length pat.
              indexOf (padded bytes) pat = int k \<and>
              sel = map toString (oneHot 8192 (int k)) \<and>
              selector_constraints q 8192 (length pat) (oneHot 8192 (int k)) \<and>
              sel ! k = ''1'' \<and>
              (\<forall>i. 8192 - length pat + 1 \<le> i \<and> i < 8192 \<longrightarrow> sel ! i = ''0'')"
    if s: "sublist pat (padded bytes)" and ne: "pat \<noteq> []" and len: "length pat \<le> 8192"
      and sel: "sel = map toString (oneHot MAX_LEN (indexOf (padded bytes) pat))"
    for pat sel
  proof -
    from selector_of_found[OF s ne] obtain k where
      k: "indexOf (padded bytes) pat = int k" "k + length pat \<le> MAX_LEN" by blast
    have pos: "1 \<le> length pat" using ne by (cases pat) simp_all
    from k(2) have kw: "k \<le> 8192 - length pat" by (simp add: MAX_LEN_def)
    with pos len have lt: "k < 8192" by arith
    have sel': "sel = map toString (oneHot 8192 (int k))" by (simp add: sel k(1) MAX_LEN_def)
    have sc: "selector_constraints q 8192 (length pat) (oneHot 8192 (int k))"
      unfolding oneHot_nat[OF lt]
      by (rule selector_constraints_one_hot[OF assms(1) kw pos len])
    from rendered_oneHot[OF lt] have r: "\<forall>i<8192. sel ! i = (if i = k then ''1'' else ''0'')"
      unfolding sel' by blast
    have "sel ! k = ''1''" using r lt by simp
    moreover have "\<forall>i. 8192 - length pat + 1 \<le> i \<and> i < 8192 \<longrightarrow> sel ! i = ''0''"
      using r kw by auto
    ultimately show ?thesis using kw k(1) sel' sc by blast
  qed
  note f = build_success_fields[OF assms(2)]
  from one[OF f(1) patterns_nonempty(1) _ f(6)] one[OF f(2) patterns_nonempty(2) _ f(7)]
       one[OF f(3) patterns_nonempty(3) _ f(8)]
  show ?thesis by (simp add: patterns_nonempty)
qed

theorem emitted_selectors_satisfy_window_witness:
  "\<exists>a. buildCircuitInput 7 H0 mail1 = Inr a \<and>
       selector_constraints 11 8192 10 (oneHot 8192 30) \<and>
       sel_atg a = map toString (oneHot 8192 30)"
proof -
  have 3: "sublist from_pattern (padded mail1)" "sublist to_pattern (padded mail1)"
    "sublist atg_pattern (padded mail1)"
    by (simp_all add: sublist_padded_eval patterns_nonempty mail1_len mail1_idx)
  then obtain a where a: "buildCircuitInput 7 H0 mail1 = Inr a"
    unfolding build_cases by auto
  have i: "indexOf (padded mail1) atg_pattern = 30"
    using indexOf_padded_short[OF mail1_sub(3) patterns_nonempty(3) mail1_len] mail1_idx(3)
    by simp
  have q: "(1::int) < 11" by simp
  from emitted_selectors_satisfy_window[OF q a]
  have "\<exists>k\<le>8192 - length atg_pattern.
              indexOf (padded mail1) atg_pattern = int k \<and>
              sel_atg a = map toString (oneHot 8192 (int k)) \<and>
              selector_constraints 11 8192 (length atg_pattern) (oneHot 8192 (int k))"
    by auto
  then obtain k where k: "int k = 30" "sel_atg a = map toString (oneHot 8192 (int k))"
    "selector_constraints 11 8192 (length atg_pattern) (oneHot 8192 (int k))"
    using i by auto
  then have "selector_constraints 11 8192 10 (oneHot 8192 30) \<and>
       sel_atg a = map toString (oneHot 8192 30)"
    by (simp add: patterns_nonempty)
  with a show ?thesis by blast
qed

section \<open>The registry's flags\<close>

lemma unat_of_char: "unat (of_char c :: 8 word) = of_char c"
proof -
  have "(of_char c :: 8 word) = of_nat (of_char c)" by (simp add: of_nat_of_char)
  then have "unat (of_char c :: 8 word) = (of_char c :: nat) mod 2 ^ 8"
    by (simp only: unat_of_nat) simp
  then show ?thesis by simp
qed

lemma of_char_word_eq:
  "(of_char c :: 8 word) = of_char d \<longleftrightarrow> c = d"
proof
  assume "(of_char c :: 8 word) = of_char d"
  then have "unat (of_char c :: 8 word) = unat (of_char d :: 8 word)" by simp
  then have "(of_char c :: nat) = of_char d" by (simp only: unat_of_char)
  then show "c = d" by simp
qed simp

lemma digit_words: "(of_char CHR ''0'' :: 8 word) = 48" "(of_char CHR ''1'' :: 8 word) = 49"
  by simp_all

lemma decode_flag_Inr:
  "decode_flag m1 m2 newValue = Inr v \<longleftrightarrow>
     (newValue = ''0'' \<and> v = 0) \<or> (newValue = ''1'' \<and> v = 1)"
proof
  assume a: "decode_flag m1 m2 newValue = Inr v"
  then have len: "length newValue = 1" by (auto simp: decode_flag_def split: if_splits)
  then obtain c where c: "newValue = [c]" by (cases newValue) auto
  let ?w = "of_char c :: 8 word"
  from a c have ge: "\<not> ?w < 48" and v: "v = ?w - 48" and r: "v = 0 \<or> v = 1"
    by (auto simp: decode_flag_def checked_sub_def split: if_splits)
  from r show "(newValue = ''0'' \<and> v = 0) \<or> (newValue = ''1'' \<and> v = 1)"
  proof
    assume v0: "v = 0"
    with v have "?w = 48" by simp
    then have "?w = of_char CHR ''0''" by (simp only: digit_words)
    then have "c = CHR ''0''" by (simp only: of_char_word_eq)
    with c v0 show ?thesis by simp
  next
    assume v1: "v = 1"
    with v have "?w = 1 + 48" by (metis diff_add_cancel)
    then have "?w = of_char CHR ''1''" by (simp only: digit_words) simp
    then have "c = CHR ''1''" by (simp only: of_char_word_eq)
    with c v1 show ?thesis by simp
  qed
next
  assume "(newValue = ''0'' \<and> v = 0) \<or> (newValue = ''1'' \<and> v = 1)"
  then show "decode_flag m1 m2 newValue = Inr v"
    by (auto simp: decode_flag_def checked_sub_def)
qed

lemma decode_flag_Inl:
  "newValue \<noteq> ''0'' \<Longrightarrow> newValue \<noteq> ''1'' \<Longrightarrow> \<exists>e. decode_flag m1 m2 newValue = Inl e"
  using decode_flag_Inr[of m1 m2 newValue] by (cases "decode_flag m1 m2 newValue") auto

lemma updateField_age:
  "exists_flag (identities st identifier) \<Longrightarrow>
   updateField st ts identifier ''age'' newValue =
     (case decode_flag ''Age value must be single character'' ''Age must be 0 or 1'' newValue of
        Inl e \<Rightarrow> Inl e
      | Inr ageValue \<Rightarrow>
          Inr (st\<lparr> identities := (identities st)
                      (identifier := (identities st identifier)\<lparr> age := ageValue, timestamp := ts \<rparr>),
                   events := events st @ [DataFieldUpdated identifier ''age'' newValue] \<rparr>))"
  by (simp add: updateField_def Let_def split: sum.split)

lemma updateField_ofacStatus:
  "exists_flag (identities st identifier) \<Longrightarrow>
   updateField st ts identifier ''ofacStatus'' newValue =
     (case decode_flag ''OFAC value must be single character'' ''OFAC status must be 0 or 1''
             newValue of
        Inl e \<Rightarrow> Inl e
      | Inr ofacValue \<Rightarrow>
          Inr (st\<lparr> identities := (identities st)
                      (identifier := (identities st identifier)\<lparr> ofacStatus := ofacValue,
                                                                 timestamp := ts \<rparr>),
                   events := events st @ [DataFieldUpdated identifier ''ofacStatus'' newValue] \<rparr>))"
  by (simp add: updateField_def Let_def split: sum.split)

text \<open>
  Claim C9 (as amended). In \<open>updateField\<close>, the flag of \<open>age\<close> and of \<open>ofacStatus\<close> is read
  from a string of one character as the character code minus 48, in checked 8-bit
  arithmetic, and must then be 0 or 1. A call that succeeds was given \<open>"0"\<close> or \<open>"1"\<close> and
  stores that difference; any other string, a non-digit included, aborts the call, so
  nothing is stored.
\<close>

theorem updateField_flag_decoding:
  assumes "exists_flag (identities st identifier)"
    and "fieldName = ''age'' \<or> fieldName = ''ofacStatus''"
  shows "(\<forall>st'. updateField st block_timestamp identifier fieldName newValue = Inr st' \<longrightarrow>
            (\<exists>c. newValue = [c] \<and> (c = CHR ''0'' \<or> c = CHR ''1'') \<and>
                 (if fieldName = ''age'' then age (identities st' identifier)
                  else ofacStatus (identities st' identifier)) = of_char c - 48))
       \<and> (newValue \<noteq> ''0'' \<and> newValue \<noteq> ''1'' \<longrightarrow>
            (\<exists>e. updateField st block_timestamp identifier fieldName newValue = Inl e))"
proof (intro conjI allI impI)
  fix st'
  assume u: "updateField st block_timestamp identifier fieldName newValue = Inr st'"
  from assms(2) show "\<exists>c. newValue = [c] \<and> (c = CHR ''0'' \<or> c = CHR ''1'') \<and>
                 (if fieldName = ''age'' then age (identities st' identifier)
                  else ofacStatus (identities st' identifier)) = of_char c - 48"
  proof
    assume f: "fieldName = ''age''"
    from u have u': "(case decode_flag ''Age value must be single character''
            ''Age must be 0 or 1'' newValue of
        Inl e \<Rightarrow> Inl e
      | Inr ageValue \<Rightarrow>
          Inr (st\<lparr> identities := (identities st)
                      (identifier := (identities st identifier)\<lparr> age := ageValue,
                                                                 timestamp := block_timestamp \<rparr>),
                   events := events st @ [DataFieldUpdated identifier ''age'' newValue] \<rparr>)) = Inr st'"
      unfolding f updateField_age[OF assms(1)] .
    obtain v where
      d: "decode_flag ''Age value must be single character'' ''Age must be 0 or 1'' newValue = Inr v"
      and s: "age (identities st' identifier) = v"
    proof (cases "decode_flag ''Age value must be single character'' ''Age must be 0 or 1'' newValue")
      case (Inl e)
      with u' show ?thesis by simp
    next
      case (Inr v)
      from u' have "Inr (st\<lparr> identities := (identities st)
                      (identifier := (identities st identifier)\<lparr> age := v,
                                                                 timestamp := block_timestamp \<rparr>),
                   events := events st @ [DataFieldUpdated identifier ''age'' newValue] \<rparr>)
            = (Inr st' :: sol_error + registry)"
        unfolding Inr by (simp only: sum.case)
      then have "st' = st\<lparr> identities := (identities st)
                      (identifier := (identities st identifier)\<lparr> age := v,
                                                                 timestamp := block_timestamp \<rparr>),
                   events := events st @ [DataFieldUpdated identifier ''age'' newValue] \<rparr>"
        by (simp only: sum.inject)
      then have "age (identities st' identifier) = v" by simp
      with Inr show ?thesis by (rule that)
    qed
    from d have "(newValue = ''0'' \<and> v = 0) \<or> (newValue = ''1'' \<and> v = 1)"
      by (simp only: decode_flag_Inr)
    then show ?thesis
    proof
      assume "newValue = ''0'' \<and> v = 0"
      then show ?thesis using s f by (intro exI[of _ "CHR ''0''"]) simp
    next
      assume "newValue = ''1'' \<and> v = 1"
      then show ?thesis using s f by (intro exI[of _ "CHR ''1''"]) simp
    qed
  next
    assume f: "fieldName = ''ofacStatus''"
    from u have u': "(case decode_flag ''OFAC value must be single character''
            ''OFAC status must be 0 or 1'' newValue of
        Inl e \<Rightarrow> Inl e
      | Inr ofacValue \<Rightarrow>
          Inr (st\<lparr> identities := (identities st)
                      (identifier := (identities st identifier)\<lparr> ofacStatus := ofacValue,
                                                                 timestamp := block_timestamp \<rparr>),
                   events := events st @ [DataFieldUpdated identifier ''ofacStatus'' newValue] \<rparr>))
        = Inr st'"
      unfolding f updateField_ofacStatus[OF assms(1)] .
    obtain v where
      d: "decode_flag ''OFAC value must be single character'' ''OFAC status must be 0 or 1''
            newValue = Inr v"
      and s: "ofacStatus (identities st' identifier) = v"
    proof (cases "decode_flag ''OFAC value must be single character''
                    ''OFAC status must be 0 or 1'' newValue")
      case (Inl e)
      with u' show ?thesis by simp
    next
      case (Inr v)
      from u' have "Inr (st\<lparr> identities := (identities st)
                      (identifier := (identities st identifier)\<lparr> ofacStatus := v,
                                                                 timestamp := block_timestamp \<rparr>),
                   events := events st @ [DataFieldUpdated identifier ''ofacStatus'' newValue] \<rparr>)
            = (Inr st' :: sol_error + registry)"
        unfolding Inr by (simp only: sum.case)
      then have "st' = st\<lparr> identities := (identities st)
                      (identifier := (identities st identifier)\<lparr> ofacStatus := v,
                                                                 timestamp := block_timestamp \<rparr>),
                   events := events st @ [DataFieldUpdated identifier ''ofacStatus'' newValue] \<rparr>"
        by (simp only: sum.inject)
      then have "ofacStatus (identities st' identifier) = v" by simp
      with Inr show ?thesis by (rule that)
    qed
    from d have "(newValue = ''0'' \<and> v = 0) \<or> (newValue = ''1'' \<and> v = 1)"
      by (simp only: decode_flag_Inr)
    then show ?thesis
    proof
      assume "newValue = ''0'' \<and> v = 0"
      then show ?thesis using s f by (intro exI[of _ "CHR ''0''"]) simp
    next
      assume "newValue = ''1'' \<and> v = 1"
      then show ?thesis using s f by (intro exI[of _ "CHR ''1''"]) simp
    qed
  qed
next
  assume n: "newValue \<noteq> ''0'' \<and> newValue \<noteq> ''1''"
  from assms(2) show "\<exists>e. updateField st block_timestamp identifier fieldName newValue = Inl e"
  proof
    assume f: "fieldName = ''age''"
    from decode_flag_Inl[of newValue "''Age value must be single character''" "''Age must be 0 or 1''"] n
    obtain e where "decode_flag ''Age value must be single character'' ''Age must be 0 or 1'' newValue = Inl e"
      by blast
    then show ?thesis unfolding f updateField_age[OF assms(1)] by simp
  next
    assume f: "fieldName = ''ofacStatus''"
    from decode_flag_Inl[of newValue "''OFAC value must be single character''" "''OFAC status must be 0 or 1''"] n
    obtain e where "decode_flag ''OFAC value must be single character'' ''OFAC status must be 0 or 1'' newValue = Inl e"
      by blast
    then show ?thesis unfolding f updateField_ofacStatus[OF assms(1)] by simp
  qed
qed

theorem updateField_flag_decoding_witness:
  "(\<exists>st'. updateField registry0 7 ''id1'' ''age'' ''0'' = Inr st' \<and>
          age (identities st' ''id1'') = 0) \<and>
   (\<exists>e. updateField registry0 7 ''id1'' ''ofacStatus'' ''x'' = Inl e)"
proof -
  have ex: "exists_flag (identities registry0 ''id1'')" by (simp add: registry0_def alice_def)
  note a = updateField_flag_decoding[OF ex disjI1[OF refl], of 7 "''0''"]
  note b = updateField_flag_decoding[OF ex disjI2[OF refl], of 7 "''x''"]
  obtain st' where s: "updateField registry0 7 ''id1'' ''age'' ''0'' = Inr st'"
    by (simp add: updateField_def registry0_def alice_def decode_flag_def checked_sub_def)
  with a have "age (identities st' ''id1'') = 0" by auto
  with s have 1: "\<exists>st'. updateField registry0 7 ''id1'' ''age'' ''0'' = Inr st' \<and>
          age (identities st' ''id1'') = 0" by blast
  from b have 2: "\<exists>e. updateField registry0 7 ''id1'' ''ofacStatus'' ''x'' = Inl e" by simp
  from 1 2 show ?thesis by blast
qed

theorem non_digit_flag_rejected:
  "exists_flag (identities registry0 ''id1'') \<and> age (identities registry0 ''id1'') = 1 \<and>
   updateField registry0 7 ''id1'' ''age'' ''a'' = Inl (Revert ''Age must be 0 or 1'') \<and>
   updateField registry0 7 ''id1'' ''age'' ''/'' = Inl (Panic 17)"
  by (simp add: updateField_def registry0_def alice_def decode_flag_def checked_sub_def)

end
